theory Spec2Isabelle
  imports Complex_Main "HOL-Library.AList"
begin

section \<open>Values of the request body\<close>

text \<open>
  The endpoint reads raw JSON with no schema validation, so nodes, edges and their fields
  are arbitrary decoded JSON values. Python compares an int and a float by their exact
  numeric value, so a finite JSON number is modelled by its rational value; NaN and the
  infinities, which are not JSON, are outside the model.
\<close>

datatype pyval =
    PNone
  | PBool bool
  | PNum rat
  | PStr string
  | PList "pyval list"
  | PDict "(string \<times> pyval) list"

datatype error =
  TypeError | AttributeError | KeyError | IndexError | JSONDecodeError | RecursionError

text \<open>Python truthiness, as used by \<open>if node.get('id')\<close>, \<open>if edges\<close> and \<open>source and target\<close>.\<close>

fun truthy :: "pyval \<Rightarrow> bool" where
  "truthy PNone = False"
| "truthy (PBool b) = b"
| "truthy (PNum r) = (r \<noteq> 0)"
| "truthy (PStr s) = (s \<noteq> [])"
| "truthy (PList xs) = (xs \<noteq> [])"
| "truthy (PDict d) = (d \<noteq> [])"

text \<open>
  Members of a Python set and keys of a Python dict are found by hash and \<open>==\<close>. Lists and
  dicts are unhashable (hashing them raises TypeError); \<open>True == 1\<close> and \<open>False == 0\<close>, with
  equal hashes, so a boolean and the number it equals are the same key.
\<close>

datatype key = KNone | KNum rat | KStr string

fun key_of :: "pyval \<Rightarrow> error + key" where
  "key_of PNone = Inr KNone"
| "key_of (PBool b) = Inr (KNum (if b then 1 else 0))"
| "key_of (PNum r) = Inr (KNum r)"
| "key_of (PStr s) = Inr (KStr s)"
| "key_of (PList xs) = Inl TypeError"
| "key_of (PDict d) = Inl TypeError"

text \<open>\<open>record.get(name)\<close>: only a dict has the method; a missing key gives None.\<close>

fun py_get :: "pyval \<Rightarrow> string \<Rightarrow> error + pyval" where
  "py_get (PDict d) name = Inr (case map_of d name of None \<Rightarrow> PNone | Some v \<Rightarrow> v)"
| "py_get _ name = Inl AttributeError"

text \<open>\<open>raw_data.get(name, [])\<close>.\<close>

fun py_get_default :: "pyval \<Rightarrow> string \<Rightarrow> pyval \<Rightarrow> error + pyval" where
  "py_get_default (PDict d) name dflt =
     Inr (case map_of d name of None \<Rightarrow> dflt | Some v \<Rightarrow> v)"
| "py_get_default _ name dflt = Inl AttributeError"

text \<open>\<open>len(x)\<close>, \<open>for r in x\<close> and \<open>x[0]\<close> on a decoded JSON value.\<close>

fun py_len :: "pyval \<Rightarrow> error + nat" where
  "py_len (PList xs) = Inr (length xs)"
| "py_len (PStr s) = Inr (length s)"
| "py_len (PDict d) = Inr (length (remdups (map fst d)))"
| "py_len _ = Inl TypeError"

fun py_iter :: "pyval \<Rightarrow> error + pyval list" where
  "py_iter (PList xs) = Inr xs"
| "py_iter (PStr s) = Inr (map (\<lambda>c. PStr [c]) s)"
| "py_iter (PDict d) = Inr (map PStr (remdups (map fst d)))"
| "py_iter _ = Inl TypeError"

fun py_first :: "pyval \<Rightarrow> error + pyval" where
  "py_first (PList []) = Inl IndexError"
| "py_first (PList (x # xs)) = Inr x"
| "py_first (PStr []) = Inl IndexError"
| "py_first (PStr (c # s)) = Inr (PStr [c])"
| "py_first (PDict d) = Inl KeyError"
| "py_first _ = Inl TypeError"

section \<open>Building the vertex set and the adjacency lists\<close>

text \<open>
  \<open>node_ids = {node.get('id') for node in nodes if node.get('id')}\<close>. The set is kept as
  a duplicate-free list in order of first insertion; Python leaves the iteration order of
  a set unspecified, and \<open>traverse_order_irrelevant\<close> below shows that the value
  returned does not depend on it (how deep the search nests can).
\<close>

fun collect_node_ids :: "pyval list \<Rightarrow> key list \<Rightarrow> error + key list" where
  "collect_node_ids [] ids = Inr ids"
| "collect_node_ids (node # nodes) ids =
     (case py_get node ''id'' of
        Inl e \<Rightarrow> Inl e
      | Inr v \<Rightarrow>
          if truthy v then
            (case key_of v of
               Inl e \<Rightarrow> Inl e
             | Inr k \<Rightarrow> collect_node_ids nodes (if k \<in> set ids then ids else ids @ [k]))
          else collect_node_ids nodes ids)"

type_synonym graph = "(key \<times> key list) list"
type_synonym colors = "(key \<times> nat) list"

text \<open>\<open>for node_id in node_ids: graph[node_id] = []\<close>.\<close>

fun init_graph :: "key list \<Rightarrow> graph \<Rightarrow> graph" where
  "init_graph [] graph = graph"
| "init_graph (node_id # ids) graph = init_graph ids (AList.update node_id [] graph)"

text \<open>
  The edge loop. \<open>source in graph\<close> hashes \<open>source\<close> and is evaluated only when source and
  target are both truthy; \<open>target in graph\<close> only when the source is a key.
\<close>

fun add_edges :: "pyval list \<Rightarrow> graph \<Rightarrow> error + graph" where
  "add_edges [] graph = Inr graph"
| "add_edges (edge # edges) graph =
     (case py_get edge ''source'' of
        Inl e \<Rightarrow> Inl e
      | Inr source \<Rightarrow>
     (case py_get edge ''target'' of
        Inl e \<Rightarrow> Inl e
      | Inr target \<Rightarrow>
          if truthy source \<and> truthy target then
            (case key_of source of
               Inl e \<Rightarrow> Inl e
             | Inr s \<Rightarrow>
                 if s \<in> fst ` set graph then
                   (case key_of target of
                      Inl e \<Rightarrow> Inl e
                    | Inr t \<Rightarrow>
                        if t \<in> fst ` set graph then
                          add_edges edges (AList.map_entry s (\<lambda>succs. succs @ [t]) graph)
                        else add_edges edges graph)
                 else add_edges edges graph)
          else add_edges edges graph))"

section \<open>The graph of the data model\<close>

text \<open>
  The graph as the data model describes it, independently of how the code builds it: the
  vertices are the truthy identifiers of the node records, the edges are the pairs of
  truthy source and target that are both vertices.
\<close>

definition node_key :: "pyval \<Rightarrow> key option" where
  "node_key node =
     (case py_get node ''id'' of
        Inl e \<Rightarrow> None
      | Inr v \<Rightarrow>
          if truthy v then (case key_of v of Inl e \<Rightarrow> None | Inr k \<Rightarrow> Some k) else None)"

definition vertex_set :: "pyval list \<Rightarrow> key set" where
  "vertex_set nodes = {k. \<exists>node \<in> set nodes. node_key node = Some k}"

definition edge_pair :: "pyval \<Rightarrow> (key \<times> key) option" where
  "edge_pair edge =
     (case py_get edge ''source'' of
        Inl e \<Rightarrow> None
      | Inr source \<Rightarrow>
     (case py_get edge ''target'' of
        Inl e \<Rightarrow> None
      | Inr target \<Rightarrow>
          if truthy source \<and> truthy target then
            (case key_of source of
               Inl e \<Rightarrow> None
             | Inr s \<Rightarrow> (case key_of target of Inl e \<Rightarrow> None | Inr t \<Rightarrow> Some (s, t)))
          else None))"

definition pairs_within :: "key set \<Rightarrow> pyval list \<Rightarrow> (key \<times> key) set" where
  "pairs_within V edges =
     {(s, t). (\<exists>edge \<in> set edges. edge_pair edge = Some (s, t)) \<and> s \<in> V \<and> t \<in> V}"

definition valid_edges :: "pyval list \<Rightarrow> pyval list \<Rightarrow> (key \<times> key) set" where
  "valid_edges nodes edges = pairs_within (vertex_set nodes) edges"

text \<open>
  What a record must look like for the set comprehension and the edge loop not to raise:
  a node must be a mapping whose identifier, when truthy, is hashable; an edge must be a
  mapping whose source is hashable when source and target are both truthy, and whose target
  is hashable when the source is then a vertex.
\<close>

definition hashable :: "pyval \<Rightarrow> bool" where
  "hashable v = (case key_of v of Inl e \<Rightarrow> False | Inr k \<Rightarrow> True)"

definition node_ok :: "pyval \<Rightarrow> bool" where
  "node_ok node =
     (case py_get node ''id'' of
        Inl e \<Rightarrow> False
      | Inr v \<Rightarrow> if truthy v then hashable v else True)"

definition edge_ok :: "key set \<Rightarrow> pyval \<Rightarrow> bool" where
  "edge_ok V edge =
     (case py_get edge ''source'' of
        Inl e \<Rightarrow> False
      | Inr source \<Rightarrow>
     (case py_get edge ''target'' of
        Inl e \<Rightarrow> False
      | Inr target \<Rightarrow>
          if truthy source \<and> truthy target then
            (case key_of source of
               Inl e \<Rightarrow> False
             | Inr s \<Rightarrow> if s \<in> V then hashable target else True)
          else True))"

definition well_shaped :: "pyval list \<Rightarrow> pyval list \<Rightarrow> bool" where
  "well_shaped nodes edges \<longleftrightarrow>
     list_all node_ok nodes \<and> list_all (edge_ok (vertex_set nodes)) edges"

text \<open>
  A simpler sufficient shape for an edge: it is a mapping, and its source and target are
  hashable whenever they are truthy.
\<close>

definition edge_plain :: "pyval \<Rightarrow> bool" where
  "edge_plain edge =
     (case py_get edge ''source'' of
        Inl e \<Rightarrow> False
      | Inr source \<Rightarrow>
     (case py_get edge ''target'' of
        Inl e \<Rightarrow> False
      | Inr target \<Rightarrow>
          (if truthy source then hashable source else True) \<and>
          (if truthy target then hashable target else True)))"

section \<open>Three-colour depth-first search\<close>

definition WHITE :: nat where "WHITE = 0"
definition GRAY :: nat where "GRAY = 1"
definition BLACK :: nat where "BLACK = 2"

text \<open>\<open>color = {node_id: WHITE for node_id in node_ids}\<close>.\<close>

fun init_color :: "key list \<Rightarrow> colors \<Rightarrow> colors" where
  "init_color [] color = color"
| "init_color (node_id # ids) color = init_color ids (AList.update node_id WHITE color)"

text \<open>
  The nested function \<open>has_cycle\<close> with the colour dict it closes over passed in and
  returned. \<open>has_cycle_loop\<close> is its \<open>for neighbor in graph[node]\<close> loop on the neighbours
  still to come. Subscripting a dict with a missing key raises KeyError.

  Every nested call of \<open>has_cycle\<close> takes a frame of the interpreter's stack, and the
  interpreter raises RecursionError when its recursion limit is reached. The source fixes
  neither the limit nor the frames in use when the analyzer starts, so the room left is a
  parameter: \<open>depth\<close> is the number of calls of \<open>has_cycle\<close> that may still be nested
  inside the current one.
\<close>

function has_cycle :: "nat \<Rightarrow> graph \<Rightarrow> key \<Rightarrow> colors \<Rightarrow> error + (bool \<times> colors)"
  and has_cycle_loop ::
    "nat \<Rightarrow> graph \<Rightarrow> key \<Rightarrow> key list \<Rightarrow> colors \<Rightarrow> error + (bool \<times> colors)"
where
  "has_cycle depth graph node color =
     (case map_of graph node of
        None \<Rightarrow> Inl KeyError
      | Some succs \<Rightarrow> has_cycle_loop depth graph node succs (AList.update node GRAY color))"
| "has_cycle_loop depth graph node [] color = Inr (False, AList.update node BLACK color)"
| "has_cycle_loop depth graph node (neighbor # rest) color =
     (case map_of color neighbor of
        None \<Rightarrow> Inl KeyError
      | Some c \<Rightarrow>
          if c = GRAY then Inr (True, color)
          else if c = WHITE then
            (case depth of
               0 \<Rightarrow> Inl RecursionError
             | Suc d \<Rightarrow>
                 (case has_cycle d graph neighbor color of
                    Inl e \<Rightarrow> Inl e
                  | Inr (found, color') \<Rightarrow>
                      if found then Inr (True, color')
                      else has_cycle_loop depth graph node rest color'))
          else has_cycle_loop depth graph node rest color)"
  by pat_completeness auto

termination has_cycle
  by (relation "inv_image (less_than <*lex*> less_than <*lex*> less_than)
      (\<lambda>x. case x of
         Inl (depth, graph, node, color) \<Rightarrow> (depth, 1, 0)
       | Inr (depth, graph, node, ns, color) \<Rightarrow> (depth, 0, length ns))")
    auto

text \<open>
  \<open>for node_id in node_ids: if color[node_id] == WHITE: if has_cycle(node_id): return False\<close>,
  then \<open>return True\<close>. \<open>limit\<close> is the room for nested calls inside each outermost
  call of \<open>has_cycle\<close>: the interpreter's recursion limit less the frames in use there.
\<close>

fun visit_all :: "nat \<Rightarrow> graph \<Rightarrow> key list \<Rightarrow> colors \<Rightarrow> error + bool" where
  "visit_all limit graph [] color = Inr True"
| "visit_all limit graph (node_id # ids) color =
     (case map_of color node_id of
        None \<Rightarrow> Inl KeyError
      | Some c \<Rightarrow>
          if c = WHITE then
            (case has_cycle limit graph node_id color of
               Inl e \<Rightarrow> Inl e
             | Inr (found, color') \<Rightarrow>
                 if found then Inr False else visit_all limit graph ids color')
          else visit_all limit graph ids color)"

text \<open>Everything after the vertex set is known: adjacency, colours, traversal.\<close>

definition traverse :: "nat \<Rightarrow> key list \<Rightarrow> pyval list \<Rightarrow> error + bool" where
  "traverse limit node_ids edges =
     (case add_edges edges (init_graph node_ids []) of
        Inl e \<Rightarrow> Inl e
      | Inr graph \<Rightarrow> visit_all limit graph node_ids (init_color node_ids []))"

text \<open>The body of \<open>check_is_dag_raw\<close> below its first two lines: the general algorithm.\<close>

definition dfs_check :: "nat \<Rightarrow> pyval \<Rightarrow> pyval \<Rightarrow> error + bool" where
  "dfs_check limit nodes edges =
     (case py_iter nodes of
        Inl e \<Rightarrow> Inl e
      | Inr ns \<Rightarrow>
     (case collect_node_ids ns [] of
        Inl e \<Rightarrow> Inl e
      | Inr node_ids \<Rightarrow>
     (case py_iter edges of
        Inl e \<Rightarrow> Inl e
      | Inr es \<Rightarrow> traverse limit node_ids es)))"

definition check_is_dag_raw :: "nat \<Rightarrow> pyval \<Rightarrow> pyval \<Rightarrow> error + bool" where
  "check_is_dag_raw limit nodes edges =
     (if \<not> truthy edges then Inr True else dfs_check limit nodes edges)"

section \<open>The endpoint\<close>

record analysis =
  num_nodes :: nat
  num_edges :: nat
  is_dag :: bool

text \<open>
  What the handler returns: the result dict, or, from the \<open>except\<close> branch, the pair
  \<open>({"error": str(e)}, 400)\<close>, kept here as the exception and the number.
\<close>

datatype handler_return = Result analysis | Error_tuple error nat

text \<open>The debug print of the first edge evaluates \<open>edges[0]\<close> and four \<open>.get\<close> calls.\<close>

definition first_edge_details :: "pyval \<Rightarrow> error + unit" where
  "first_edge_details edges =
     (if truthy edges then
        (case py_first edges of
           Inl e \<Rightarrow> Inl e
         | Inr first_edge \<Rightarrow>
        (case py_get first_edge ''source'' of
           Inl e \<Rightarrow> Inl e
         | Inr _ \<Rightarrow>
        (case py_get first_edge ''target'' of
           Inl e \<Rightarrow> Inl e
         | Inr _ \<Rightarrow>
        (case py_get first_edge ''sourceHandle'' of
           Inl e \<Rightarrow> Inl e
         | Inr _ \<Rightarrow>
        (case py_get first_edge ''targetHandle'' of
           Inl e \<Rightarrow> Inl e
         | Inr _ \<Rightarrow> Inr ())))))
      else Inr ())"

text \<open>The \<open>try\<close> block once the body is decoded.\<close>

definition analyse :: "nat \<Rightarrow> pyval \<Rightarrow> error + analysis" where
  "analyse limit raw_data =
     (case py_get_default raw_data ''nodes'' (PList []) of
        Inl e \<Rightarrow> Inl e
      | Inr nodes \<Rightarrow>
     (case py_get_default raw_data ''edges'' (PList []) of
        Inl e \<Rightarrow> Inl e
      | Inr edges \<Rightarrow>
     (case py_len nodes of
        Inl e \<Rightarrow> Inl e
      | Inr n \<Rightarrow>
     (case py_len edges of
        Inl e \<Rightarrow> Inl e
      | Inr m \<Rightarrow>
     (case first_edge_details edges of
        Inl e \<Rightarrow> Inl e
      | Inr _ \<Rightarrow>
     (case check_is_dag_raw limit nodes edges of
        Inl e \<Rightarrow> Inl e
      | Inr d \<Rightarrow> Inr \<lparr>num_nodes = n, num_edges = m, is_dag = d\<rparr>))))))"

text \<open>
  \<open>parse_pipeline\<close>: the body is \<open>None\<close> when \<open>request.json()\<close> cannot decode it. Every
  exception is caught and answered with the tuple.
\<close>

definition parse_pipeline :: "nat \<Rightarrow> pyval option \<Rightarrow> handler_return" where
  "parse_pipeline limit body =
     (case body of
        None \<Rightarrow> Error_tuple JSONDecodeError 400
      | Some raw_data \<Rightarrow>
          (case analyse limit raw_data of
             Inl e \<Rightarrow> Error_tuple e 400
           | Inr result \<Rightarrow> Result result))"

text \<open>
  The route is declared \<open>@app.post("/pipelines/parse")\<close> with no status code and the
  handler never raises \<open>HTTPException\<close>, so the framework sends whatever value the
  handler returns with the route's default status 200; a returned tuple is encoded as a
  two-element JSON array.
\<close>

fun status_code :: "handler_return \<Rightarrow> nat" where
  "status_code (Result r) = 200"
| "status_code (Error_tuple e c) = 200"

section \<open>Invariant of the search\<close>

text \<open>
  The white keys, the edges stored in the adjacency lists, and the invariant of the traversal: colours and
  adjacency have the same keys, every successor is a key, a black node has only black
  successors and lies on no cycle. \<open>advanced\<close> relates the colours before and after a
  call that found no cycle: the visited node is black, and other nodes changed, if at all,
  from white to black.
\<close>

definition whites :: "colors \<Rightarrow> key set" where
  "whites color = {k. map_of color k = Some WHITE}"

definition graph_edges :: "graph \<Rightarrow> (key \<times> key) set" where
  "graph_edges graph = {(u, v). \<exists>succs. map_of graph u = Some succs \<and> v \<in> set succs}"

definition dfs_inv :: "graph \<Rightarrow> colors \<Rightarrow> bool" where
  "dfs_inv graph color \<longleftrightarrow>
     fst ` set color = fst ` set graph \<and>
     graph_edges graph \<subseteq> fst ` set graph \<times> fst ` set graph \<and>
     (\<forall>k c. map_of color k = Some c \<longrightarrow> c = WHITE \<or> c = GRAY \<or> c = BLACK) \<and>
     (\<forall>u v. map_of color u = Some BLACK \<longrightarrow> (u, v) \<in> graph_edges graph \<longrightarrow>
        map_of color v = Some BLACK) \<and>
     (\<forall>u. map_of color u = Some BLACK \<longrightarrow> (u, u) \<notin> (graph_edges graph)\<^sup>+)"

definition advanced :: "colors \<Rightarrow> colors \<Rightarrow> key \<Rightarrow> bool" where
  "advanced color color' node \<longleftrightarrow>
     map_of color' node = Some BLACK \<and>
     (\<forall>k. k \<noteq> node \<longrightarrow> map_of color' k = map_of color k \<or>
        (map_of color k = Some WHITE \<and> map_of color' k = Some BLACK))"

section \<open>Inputs on which the search nests deeply\<close>

text \<open>
  \<open>succs_of V edges k\<close> is the successor list the edge loop builds for the key \<open>k\<close>
  when the keys of the adjacency are \<open>V\<close>: the valid targets in the order of the edge list.

  A family of inputs with numeric identifiers: the nodes \<open>{"id": 1}\<close> to \<open>{"id": n}\<close>;
  the fan edges \<open>1 \<rightarrow> n, 1 \<rightarrow> n - 1, \<dots>, 1 \<rightarrow> 2\<close> followed by the chain
  \<open>2 \<rightarrow> 3, \<dots>, n - 1 \<rightarrow> n\<close>; and the plain chain \<open>1 \<rightarrow> 2, \<dots>, n - 1 \<rightarrow> n\<close>.
\<close>

fun succs_of :: "key set \<Rightarrow> pyval list \<Rightarrow> key \<Rightarrow> key list" where
  "succs_of V [] k = []"
| "succs_of V (edge # edges) k =
     (case edge_pair edge of
        None \<Rightarrow> succs_of V edges k
      | Some (s, t) \<Rightarrow>
          if s = k \<and> s \<in> V \<and> t \<in> V then t # succs_of V edges k else succs_of V edges k)"

definition kid :: "nat \<Rightarrow> key" where
  "kid i = KNum (of_nat i)"

definition node_rec :: "nat \<Rightarrow> pyval" where
  "node_rec i = PDict [(''id'', PNum (of_nat i))]"

definition edge_rec :: "nat \<Rightarrow> nat \<Rightarrow> pyval" where
  "edge_rec s t = PDict [(''source'', PNum (of_nat s)), (''target'', PNum (of_nat t))]"

definition fan_nodes :: "nat \<Rightarrow> pyval list" where
  "fan_nodes n = map node_rec [1..<Suc n]"

definition fan_edges :: "nat \<Rightarrow> pyval list" where
  "fan_edges n = map (edge_rec 1) (rev [2..<Suc n]) @ map (\<lambda>i. edge_rec i (Suc i)) [2..<n]"

definition chain_edges :: "nat \<Rightarrow> pyval list" where
  "chain_edges n = map (\<lambda>i. edge_rec i (Suc i)) [1..<n]"

section \<open>Correctness of the search\<close>

lemma colour_distinct [simp]:
  "WHITE \<noteq> GRAY" "GRAY \<noteq> WHITE" "WHITE \<noteq> BLACK" "BLACK \<noteq> WHITE" "GRAY \<noteq> BLACK" "BLACK \<noteq> GRAY"
  by (simp_all add: WHITE_def GRAY_def BLACK_def)

lemma black_reach:
  assumes "dfs_inv graph color" "(u, v) \<in> (graph_edges graph)\<^sup>*" "map_of color u = Some BLACK"
  shows "map_of color v = Some BLACK"
  using assms(2,3,1)
  by (induction rule: rtrancl_induct) (auto simp: dfs_inv_def)

lemma map_of_in_keys: "(map_of xs k \<noteq> None) = (k \<in> fst ` set xs)"
  by (simp add: map_of_eq_None_iff)

lemma dfs_inv_gray:
  assumes "dfs_inv graph color" "map_of color node = Some WHITE"
  shows "dfs_inv graph (AList.update node GRAY color)"
proof -
  have "node \<in> fst ` set color" using assms(2) map_of_in_keys [of color node] by simp
  then show ?thesis using assms
    unfolding dfs_inv_def
    by (auto simp: update_conv' dom_update)
qed

lemma dfs_inv_black:
  assumes inv: "dfs_inv graph color" and gray: "map_of color node = Some GRAY"
    and succs: "\<forall>v. (node, v) \<in> graph_edges graph \<longrightarrow> map_of color v = Some BLACK"
  shows "dfs_inv graph (AList.update node BLACK color)"
proof -
  have keys: "node \<in> fst ` set color" using gray map_of_in_keys [of color node] by simp
  have acyc: "(node, node) \<notin> (graph_edges graph)\<^sup>+"
  proof
    assume "(node, node) \<in> (graph_edges graph)\<^sup>+"
    then obtain s where s: "(node, s) \<in> graph_edges graph" "(s, node) \<in> (graph_edges graph)\<^sup>*"
      by (meson tranclD)
    then have "map_of color s = Some BLACK" using succs by simp
    then have "map_of color node = Some BLACK" using black_reach [OF inv s(2)] by simp
    then show False using gray by simp
  qed
  show ?thesis
    unfolding dfs_inv_def
  proof (intro conjI allI impI)
    show "fst ` set (AList.update node BLACK color) = fst ` set graph"
      using inv keys by (auto simp: dfs_inv_def dom_update)
    show "graph_edges graph \<subseteq> fst ` set graph \<times> fst ` set graph"
      using inv by (simp add: dfs_inv_def)
    show "c = WHITE \<or> c = GRAY \<or> c = BLACK"
      if "map_of (AList.update node BLACK color) k = Some c" for k c
      using that inv by (auto simp: dfs_inv_def update_conv' split: if_splits)
    show "map_of (AList.update node BLACK color) v = Some BLACK"
      if "map_of (AList.update node BLACK color) u = Some BLACK" "(u, v) \<in> graph_edges graph" for u v
      using that inv succs by (auto simp: dfs_inv_def update_conv' split: if_splits)
    show "(u, u) \<notin> (graph_edges graph)\<^sup>+"
      if "map_of (AList.update node BLACK color) u = Some BLACK" for u
      using that inv acyc by (auto simp: dfs_inv_def update_conv' split: if_splits)
  qed
qed

lemma advanced_trans:
  assumes "advanced color color1 nb" "advanced color1 color' node"
    "map_of color nb = Some WHITE"
  shows "\<forall>k. k \<noteq> node \<longrightarrow> map_of color' k = map_of color k \<or>
        (map_of color k = Some WHITE \<and> map_of color' k = Some BLACK)"
  using assms unfolding advanced_def by (metis option.inject colour_distinct(3))

lemma finite_whites: "finite (whites color)"
  by (rule finite_subset [OF _ finite_dom_map_of [of color]]) (auto simp: whites_def)

lemma whites_update_other:
  "c \<noteq> WHITE \<Longrightarrow> whites (AList.update k c color) = whites color - {k}"
  by (auto simp: whites_def update_conv')

lemma advanced_whites:
  assumes "advanced color color' node"
  shows "card (whites color') \<le> card (whites color)"
proof -
  have "whites color' \<subseteq> whites color"
    using assms unfolding advanced_def whites_def
    by (metis (mono_tags, lifting) colour_distinct(4) mem_Collect_eq option.inject subsetI)
  then show ?thesis by (simp add: card_mono finite_whites)
qed

lemma has_cycle_correct:
  "dfs_inv graph color \<Longrightarrow> map_of color node = Some WHITE \<Longrightarrow>
     (\<forall>u. map_of color u = Some GRAY \<longrightarrow> (u, node) \<in> (graph_edges graph)\<^sup>*) \<Longrightarrow>
     (\<exists>b color'. has_cycle depth graph node color = Inr (b, color') \<and>
       (if b then \<not> acyclic (graph_edges graph)
        else dfs_inv graph color' \<and> advanced color color' node)) \<or>
     (has_cycle depth graph node color = Inl RecursionError \<and>
        depth + 1 < card (whites color))"
  "dfs_inv graph color \<Longrightarrow> map_of color node = Some GRAY \<Longrightarrow>
     set ns \<subseteq> {v. (node, v) \<in> graph_edges graph} \<Longrightarrow>
     (\<forall>v. (node, v) \<in> graph_edges graph \<longrightarrow> v \<in> set ns \<or> map_of color v = Some BLACK) \<Longrightarrow>
     (\<forall>u. map_of color u = Some GRAY \<longrightarrow> (u, node) \<in> (graph_edges graph)\<^sup>*) \<Longrightarrow>
     (\<exists>b color'. has_cycle_loop depth graph node ns color = Inr (b, color') \<and>
       (if b then \<not> acyclic (graph_edges graph)
        else dfs_inv graph color' \<and> advanced color color' node)) \<or>
     (has_cycle_loop depth graph node ns color = Inl RecursionError \<and>
        depth < card (whites color))"
proof (induction depth graph node color and depth graph node ns color
    rule: has_cycle_has_cycle_loop.induct)
  case (1 depth graph node color)
  let ?E = "graph_edges graph"
  let ?c1 = "AList.update node GRAY color"
  have "node \<in> fst ` set color" using "1.prems"(2) map_of_in_keys [of color node] by simp
  then have "node \<in> fst ` set graph" using "1.prems"(1) by (simp add: dfs_inv_def)
  then obtain succs where succs: "map_of graph node = Some succs"
    using map_of_in_keys [of graph node] by auto
  have inv1: "dfs_inv graph ?c1" by (rule dfs_inv_gray [OF "1.prems"(1,2)])
  have gray1: "map_of ?c1 node = Some GRAY" by (simp add: update_conv')
  have sub: "set succs \<subseteq> {v. (node, v) \<in> ?E}" using succs by (auto simp: graph_edges_def)
  have cover: "\<forall>v. (node, v) \<in> ?E \<longrightarrow> v \<in> set succs \<or> map_of ?c1 v = Some BLACK"
    using succs by (auto simp: graph_edges_def)
  have reach: "\<forall>u. map_of ?c1 u = Some GRAY \<longrightarrow> (u, node) \<in> ?E\<^sup>*"
    using "1.prems"(3) by (auto simp: update_conv')
  have "node \<in> whites color" using "1.prems"(2) by (simp add: whites_def)
  then have less: "card (whites ?c1) + 1 = card (whites color)"
    using card_Suc_Diff1 [OF finite_whites, of node color]
    by (simp add: whites_update_other)
  note IH = "1.IH" [OF succs inv1 gray1 sub cover reach]
  show ?case
  proof (rule disjE [OF IH])
    assume "\<exists>b color'. has_cycle_loop depth graph node succs ?c1 = Inr (b, color') \<and>
       (if b then \<not> acyclic ?E else dfs_inv graph color' \<and> advanced ?c1 color' node)"
    then obtain b color' where res: "has_cycle_loop depth graph node succs ?c1 = Inr (b, color')"
      and post: "if b then \<not> acyclic ?E else dfs_inv graph color' \<and> advanced ?c1 color' node"
      by blast
    have "advanced color color' node" if "advanced ?c1 color' node"
      using that by (auto simp: advanced_def update_conv')
    then show ?thesis using res post succs by (auto split: if_splits)
  next
    assume "has_cycle_loop depth graph node succs ?c1 = Inl RecursionError \<and>
        depth < card (whites ?c1)"
    then show ?thesis using succs less by simp
  qed
next
  case (2 depth graph node color)
  have "dfs_inv graph (AList.update node BLACK color)"
    using dfs_inv_black [OF "2.prems"(1,2)] "2.prems"(4) by simp
  moreover have "advanced color (AList.update node BLACK color) node"
    by (simp add: advanced_def update_conv')
  ultimately show ?case by auto
next
  case (3 depth graph node neighbor rest color)
  let ?E = "graph_edges graph"
  have edge: "(node, neighbor) \<in> ?E" using "3.prems"(3) by simp
  then have "neighbor \<in> fst ` set graph" using "3.prems"(1) by (auto simp: dfs_inv_def)
  then have "neighbor \<in> fst ` set color" using "3.prems"(1) by (simp add: dfs_inv_def)
  then obtain c where c: "map_of color neighbor = Some c"
    using map_of_in_keys [of color neighbor] by auto
  then have range: "c = WHITE \<or> c = GRAY \<or> c = BLACK"
    using "3.prems"(1) by (auto simp: dfs_inv_def)
  show ?case
  proof (cases "c = GRAY")
    case True
    then have "(neighbor, node) \<in> ?E\<^sup>*" using c "3.prems"(5) by simp
    then have "(neighbor, neighbor) \<in> ?E\<^sup>+" using edge by (rule rtrancl_into_trancl1)
    then have "\<not> acyclic ?E" by (auto simp: acyclic_def)
    then show ?thesis using c True by auto
  next
    case notgray: False
    show ?thesis
    proof (cases "c = WHITE")
      case True
      have white: "map_of color neighbor = Some WHITE" using c True by simp
      then have "neighbor \<in> whites color" by (simp add: whites_def)
      then have pos: "0 < card (whites color)"
        using finite_whites [of color] by (auto simp: card_gt_0_iff)
      show ?thesis
      proof (cases depth)
        case 0
        then show ?thesis using c notgray True pos by simp
      next
        case (Suc d)
        have reach: "\<forall>u. map_of color u = Some GRAY \<longrightarrow> (u, neighbor) \<in> ?E\<^sup>*"
          using "3.prems"(5) edge by (meson rtrancl.rtrancl_into_rtrancl)
        note IH1 = "3.IH"(1) [OF c notgray True Suc "3.prems"(1) white reach]
        show ?thesis
        proof (rule disjE [OF IH1])
          assume "has_cycle d graph neighbor color = Inl RecursionError \<and>
            d + 1 < card (whites color)"
          then show ?thesis using c notgray True Suc by simp
        next
          assume "\<exists>b color'. has_cycle d graph neighbor color = Inr (b, color') \<and>
            (if b then \<not> acyclic ?E else dfs_inv graph color' \<and> advanced color color' neighbor)"
          then obtain found color1
            where res1: "has_cycle d graph neighbor color = Inr (found, color1)"
              and post1: "if found then \<not> acyclic ?E
                          else dfs_inv graph color1 \<and> advanced color color1 neighbor"
            by blast
          show ?thesis
          proof (cases found)
            case True
            then show ?thesis using c notgray \<open>c = WHITE\<close> Suc res1 post1 by auto
          next
            case False
            have inv1: "dfs_inv graph color1" and adv1: "advanced color color1 neighbor"
              using post1 False by simp_all
            have ne: "node \<noteq> neighbor" using white "3.prems"(2) by auto
            have gray1: "map_of color1 node = Some GRAY"
              using adv1 ne "3.prems"(2) by (auto simp: advanced_def)
            have sub: "set rest \<subseteq> {v. (node, v) \<in> ?E}" using "3.prems"(3) by simp
            have cover: "\<forall>v. (node, v) \<in> ?E \<longrightarrow> v \<in> set rest \<or> map_of color1 v = Some BLACK"
              using "3.prems"(4) adv1 unfolding advanced_def by (metis set_ConsD)
            have reach1: "\<forall>u. map_of color1 u = Some GRAY \<longrightarrow> (u, node) \<in> ?E\<^sup>*"
              using "3.prems"(5) adv1 unfolding advanced_def
              by (metis option.inject colour_distinct(5))
            note IH2 = "3.IH"(2) [OF c notgray True Suc res1 _ False inv1 gray1 sub cover reach1]
            have step: "has_cycle_loop depth graph node (neighbor # rest) color
                = has_cycle_loop depth graph node rest color1"
              using c notgray \<open>c = WHITE\<close> Suc res1 False by simp
            show ?thesis
            proof (rule disjE [OF IH2])
              show "(found, color1) = (found, color1)" by simp
            next
              assume "has_cycle_loop depth graph node rest color1 = Inl RecursionError \<and>
                depth < card (whites color1)"
              then show ?thesis using step advanced_whites [OF adv1] by simp
            next
              assume "\<exists>b color'. has_cycle_loop depth graph node rest color1 = Inr (b, color') \<and>
                (if b then \<not> acyclic ?E
                 else dfs_inv graph color' \<and> advanced color1 color' node)"
              then obtain b color'
                where res: "has_cycle_loop depth graph node rest color1 = Inr (b, color')"
                  and post: "if b then \<not> acyclic ?E
                             else dfs_inv graph color' \<and> advanced color1 color' node"
                by blast
              have "advanced color color' node" if "advanced color1 color' node"
                using advanced_trans [OF adv1 that white] that by (simp add: advanced_def)
              then show ?thesis using step res post by (auto split: if_splits)
            qed
          qed
        qed
      qed
    next
      case False
      then have black: "map_of color neighbor = Some BLACK" using c range notgray by simp
      have sub: "set rest \<subseteq> {v. (node, v) \<in> ?E}" using "3.prems"(3) by simp
      have cover: "\<forall>v. (node, v) \<in> ?E \<longrightarrow> v \<in> set rest \<or> map_of color v = Some BLACK"
        using "3.prems"(4) black by (metis set_ConsD)
      show ?thesis
        using "3.IH"(3) [OF c notgray False "3.prems"(1,2) sub cover "3.prems"(5)]
          c notgray False by auto
    qed
  qed
qed

lemma visit_all_correct:
  "dfs_inv graph color \<Longrightarrow> (\<forall>k. map_of color k \<noteq> Some GRAY) \<Longrightarrow>
   set ids \<subseteq> fst ` set color \<Longrightarrow>
   (\<forall>k \<in> fst ` set color. k \<in> set ids \<or> map_of color k = Some BLACK) \<Longrightarrow>
   visit_all limit graph ids color = Inr (acyclic (graph_edges graph)) \<or>
   (visit_all limit graph ids color = Inl RecursionError \<and> limit + 1 < card (whites color))"
proof (induction ids arbitrary: color)
  case Nil
  have "(x, x) \<notin> (graph_edges graph)\<^sup>+" for x
  proof
    assume cyc: "(x, x) \<in> (graph_edges graph)\<^sup>+"
    then obtain y where "(x, y) \<in> graph_edges graph" by (meson tranclD)
    then have "x \<in> fst ` set color" using Nil.prems(1) by (auto simp: dfs_inv_def)
    then have "map_of color x = Some BLACK" using Nil.prems(4) by (metis empty_iff empty_set)
    then show False using Nil.prems(1) cyc by (auto simp: dfs_inv_def)
  qed
  then show ?case by (simp add: acyclic_def)
next
  case (Cons node_id ids)
  let ?E = "graph_edges graph"
  have "node_id \<in> fst ` set color" using Cons.prems(3) by simp
  then obtain c where c: "map_of color node_id = Some c"
    using map_of_in_keys [of color node_id] by auto
  then have range: "c = WHITE \<or> c = GRAY \<or> c = BLACK"
    using Cons.prems(1) by (auto simp: dfs_inv_def)
  show ?case
  proof (cases "c = WHITE")
    case True
    have white: "map_of color node_id = Some WHITE" using c True by simp
    have reach: "\<forall>u. map_of color u = Some GRAY \<longrightarrow> (u, node_id) \<in> ?E\<^sup>*"
      using Cons.prems(2) by simp
    show ?thesis
    proof (rule disjE [OF has_cycle_correct(1) [OF Cons.prems(1) white reach, of limit]])
      assume "has_cycle limit graph node_id color = Inl RecursionError \<and>
        limit + 1 < card (whites color)"
      then show ?thesis using c True by simp
    next
      assume "\<exists>b color'. has_cycle limit graph node_id color = Inr (b, color') \<and>
        (if b then \<not> acyclic ?E else dfs_inv graph color' \<and> advanced color color' node_id)"
      then obtain found color'
        where res: "has_cycle limit graph node_id color = Inr (found, color')"
          and post: "if found then \<not> acyclic ?E
                     else dfs_inv graph color' \<and> advanced color color' node_id"
        by blast
      show ?thesis
      proof (cases found)
        case True
        then show ?thesis using c \<open>c = WHITE\<close> res post by simp
      next
        case False
        have inv': "dfs_inv graph color'" and adv: "advanced color color' node_id"
          using post False by simp_all
        have keys: "fst ` set color' = fst ` set color"
          using inv' Cons.prems(1) by (simp add: dfs_inv_def)
        have nogray: "\<forall>k. map_of color' k \<noteq> Some GRAY"
          using adv Cons.prems(2) unfolding advanced_def
          by (metis option.inject colour_distinct(5))
        have sub: "set ids \<subseteq> fst ` set color'" using Cons.prems(3) keys by simp
        have cover: "\<forall>k \<in> fst ` set color'. k \<in> set ids \<or> map_of color' k = Some BLACK"
          using Cons.prems(4) adv keys unfolding advanced_def by (metis set_ConsD)
        have step: "visit_all limit graph (node_id # ids) color = visit_all limit graph ids color'"
          using c \<open>c = WHITE\<close> res False by simp
        show ?thesis
          using Cons.IH [OF inv' nogray sub cover] step advanced_whites [OF adv] by auto
      qed
    qed
  next
    case False
    then have black: "map_of color node_id = Some BLACK"
      using c range Cons.prems(2) by auto
    have sub: "set ids \<subseteq> fst ` set color" using Cons.prems(3) by simp
    have cover: "\<forall>k \<in> fst ` set color. k \<in> set ids \<or> map_of color k = Some BLACK"
      using Cons.prems(4) black by (metis set_ConsD)
    show ?thesis
      using Cons.IH [OF Cons.prems(1,2) sub cover] c False by simp
  qed
qed

text \<open>Without edges no call of \<open>has_cycle\<close> is nested in another.\<close>

lemma visit_all_no_edges:
  "graph_edges graph = {} \<Longrightarrow> visit_all limit graph ids color \<noteq> Inl RecursionError"
proof (induction ids arbitrary: color)
  case Nil
  then show ?case by simp
next
  case (Cons node_id ids)
  have "has_cycle limit graph node_id color = Inl KeyError \<or>
        has_cycle limit graph node_id color = Inr (False, AList.update node_id BLACK
          (AList.update node_id GRAY color))"
  proof (cases "map_of graph node_id")
    case None
    then show ?thesis by simp
  next
    case (Some succs)
    have "v \<notin> set succs" for v
    proof
      assume "v \<in> set succs"
      then have "(node_id, v) \<in> graph_edges graph" using Some by (auto simp: graph_edges_def)
      then show False using Cons.prems by simp
    qed
    then have "succs = []" by (cases succs) auto
    then show ?thesis using Some by simp
  qed
  then show ?case using Cons.IH [OF Cons.prems]
    by (auto split: option.splits)
qed

section \<open>The adjacency lists hold the valid edges\<close>

lemma init_graph_keys: "fst ` set (init_graph ids graph) = set ids \<union> fst ` set graph"
  by (induction ids arbitrary: graph) (auto simp: dom_update)

lemma init_graph_edges:
  "graph_edges graph = {} \<Longrightarrow> graph_edges (init_graph ids graph) = {}"
proof (induction ids arbitrary: graph)
  case Nil
  then show ?case by simp
next
  case (Cons node_id ids)
  have "graph_edges (AList.update node_id [] graph) = {}"
    using Cons.prems by (auto simp: graph_edges_def update_conv' split: if_splits)
  then show ?case using Cons.IH by simp
qed

lemma init_color_keys: "fst ` set (init_color ids color) = set ids \<union> fst ` set color"
  by (induction ids arbitrary: color) (auto simp: dom_update)

lemma init_color_white:
  "(\<forall>k c. map_of color k = Some c \<longrightarrow> c = WHITE) \<Longrightarrow>
   map_of (init_color ids color) k = Some c \<Longrightarrow> c = WHITE"
proof (induction ids arbitrary: color)
  case Nil
  then show ?case by simp
next
  case (Cons node_id ids)
  have "\<forall>k c. map_of (AList.update node_id WHITE color) k = Some c \<longrightarrow> c = WHITE"
    using Cons.prems(1) by (auto simp: update_conv' split: if_splits)
  then show ?case using Cons.IH Cons.prems(2) by simp
qed

lemma graph_edges_map_entry:
  "s \<in> fst ` set graph \<Longrightarrow>
   graph_edges (AList.map_entry s (\<lambda>succs. succs @ [t]) graph) = insert (s, t) (graph_edges graph)"
proof -
  assume "s \<in> fst ` set graph"
  then obtain ss where "map_of graph s = Some ss"
    using map_of_in_keys [of graph s] by auto
  then show ?thesis
    by (auto simp: graph_edges_def map_of_map_entry split: if_splits)
qed

lemma pairs_within_Cons:
  "pairs_within V (edge # edges) =
     (case edge_pair edge of
        None \<Rightarrow> pairs_within V edges
      | Some (s, t) \<Rightarrow> if s \<in> V \<and> t \<in> V then insert (s, t) (pairs_within V edges)
                      else pairs_within V edges)"
  by (auto simp: pairs_within_def split: option.splits)

lemma key_of_Inl: "key_of v = Inl e \<Longrightarrow> e = TypeError"
  by (cases v) auto

lemma add_edges_step:
  "add_edges (edge # edges) graph =
     (if edge_ok (fst ` set graph) edge then
        (case edge_pair edge of
           None \<Rightarrow> add_edges edges graph
         | Some (s, t) \<Rightarrow>
             if s \<in> fst ` set graph \<and> t \<in> fst ` set graph then
               add_edges edges (AList.map_entry s (\<lambda>succs. succs @ [t]) graph)
             else add_edges edges graph)
      else Inl (case py_get edge ''source'' of Inl e \<Rightarrow> e | Inr source \<Rightarrow>
                (case py_get edge ''target'' of Inl e \<Rightarrow> e | Inr _ \<Rightarrow> TypeError)))"
  by (cases "py_get edge ''source''"; cases "py_get edge ''target''";
      cases "key_of (projr (py_get edge ''source''))";
      cases "key_of (projr (py_get edge ''target''))")
     (auto simp: edge_ok_def edge_pair_def hashable_def dest: key_of_Inl)

lemma add_edges_ok:
  "\<forall>e \<in> set edges. edge_ok (fst ` set graph) e \<Longrightarrow>
   \<exists>graph'. add_edges edges graph = Inr graph' \<and> fst ` set graph' = fst ` set graph \<and>
     graph_edges graph' = graph_edges graph \<union> pairs_within (fst ` set graph) edges"
proof (induction edges arbitrary: graph)
  case Nil
  then show ?case by (simp add: pairs_within_def)
next
  case (Cons edge edges)
  let ?V = "fst ` set graph"
  have ok: "edge_ok ?V edge" and rest: "\<forall>e \<in> set edges. edge_ok ?V e"
    using Cons.prems by simp_all
  show ?case
  proof (cases "\<exists>s t. edge_pair edge = Some (s, t) \<and> s \<in> ?V \<and> t \<in> ?V")
    case True
    then obtain s t where st: "edge_pair edge = Some (s, t)" "s \<in> ?V" "t \<in> ?V" by blast
    let ?g = "AList.map_entry s (\<lambda>succs. succs @ [t]) graph"
    have keys: "fst ` set ?g = ?V" by (rule dom_map_entry)
    obtain graph' where g': "add_edges edges ?g = Inr graph'" "fst ` set graph' = fst ` set ?g"
      "graph_edges graph' = graph_edges ?g \<union> pairs_within (fst ` set ?g) edges"
      using Cons.IH [of ?g] rest keys by auto
    have "add_edges (edge # edges) graph = Inr graph'"
      using ok st g'(1) by (simp add: add_edges_step del: add_edges.simps)
    moreover have "graph_edges graph' = graph_edges graph \<union> pairs_within ?V (edge # edges)"
      using g'(3) keys st graph_edges_map_entry [OF st(2), of t]
      by (simp add: pairs_within_Cons)
    ultimately show ?thesis using g'(2) keys by simp
  next
    case False
    obtain graph' where g': "add_edges edges graph = Inr graph'" "fst ` set graph' = ?V"
      "graph_edges graph' = graph_edges graph \<union> pairs_within ?V edges"
      using Cons.IH [of graph] rest by auto
    have "add_edges (edge # edges) graph = Inr graph'"
      using ok False g'(1)
      by (auto simp: add_edges_step simp del: add_edges.simps split: option.splits)
    moreover have "pairs_within ?V (edge # edges) = pairs_within ?V edges"
      using False by (auto simp: pairs_within_Cons split: option.splits)
    ultimately show ?thesis using g'(2,3) by simp
  qed
qed

lemma add_edges_Inr:
  "add_edges edges graph = Inr graph' \<Longrightarrow> \<forall>e \<in> set edges. edge_ok (fst ` set graph) e"
proof (induction edges arbitrary: graph)
  case Nil
  then show ?case by simp
next
  case (Cons edge edges)
  have ok: "edge_ok (fst ` set graph) edge"
    using Cons.prems by (auto simp: add_edges_step simp del: add_edges.simps split: if_splits)
  define g where "g = (case edge_pair edge of None \<Rightarrow> graph
     | Some (s, t) \<Rightarrow> if s \<in> fst ` set graph \<and> t \<in> fst ` set graph
         then AList.map_entry s (\<lambda>succs. succs @ [t]) graph else graph)"
  have "add_edges edges g = Inr graph'"
    using Cons.prems ok
    by (auto simp: g_def add_edges_step simp del: add_edges.simps
        split: option.splits prod.splits if_splits)
  moreover have "fst ` set g = fst ` set graph"
    by (simp add: g_def dom_map_entry split: option.splits prod.splits)
  ultimately have "\<forall>e \<in> set edges. edge_ok (fst ` set graph) e"
    using Cons.IH [of g] by simp
  then show ?case using Cons.IH ok by auto
qed

lemma node_key_cases:
  "collect_node_ids (node # nodes) ids =
     (if node_ok node then
        collect_node_ids nodes
          (case node_key node of None \<Rightarrow> ids
           | Some k \<Rightarrow> if k \<in> set ids then ids else ids @ [k])
      else Inl (case py_get node ''id'' of Inl e \<Rightarrow> e | Inr v \<Rightarrow> TypeError))"
  by (cases "py_get node ''id''"; cases "key_of (projr (py_get node ''id''))")
     (auto simp: node_ok_def node_key_def hashable_def dest: key_of_Inl)

lemma vertex_set_Cons:
  "vertex_set (node # nodes) =
     (case node_key node of None \<Rightarrow> vertex_set nodes | Some k \<Rightarrow> insert k (vertex_set nodes))"
  by (auto simp: vertex_set_def split: option.splits)

lemma collect_node_ids_ok:
  "\<forall>n \<in> set nodes. node_ok n \<Longrightarrow>
   \<exists>node_ids. collect_node_ids nodes ids = Inr node_ids \<and>
     set node_ids = set ids \<union> vertex_set nodes \<and> (distinct ids \<longrightarrow> distinct node_ids)"
proof (induction nodes arbitrary: ids)
  case Nil
  then show ?case by (simp add: vertex_set_def)
next
  case (Cons node nodes)
  let ?ids = "case node_key node of None \<Rightarrow> ids
           | Some k \<Rightarrow> if k \<in> set ids then ids else ids @ [k]"
  obtain node_ids where r: "collect_node_ids nodes ?ids = Inr node_ids"
     "set node_ids = set ?ids \<union> vertex_set nodes" "distinct ?ids \<longrightarrow> distinct node_ids"
    using Cons.IH [of ?ids] Cons.prems by auto
  have "collect_node_ids (node # nodes) ids = Inr node_ids"
    using r(1) Cons.prems by (simp add: node_key_cases del: collect_node_ids.simps)
  moreover have "set ?ids \<union> vertex_set nodes = set ids \<union> vertex_set (node # nodes)"
    by (auto simp: vertex_set_Cons split: option.splits)
  moreover have "distinct ids \<longrightarrow> distinct ?ids" by (auto split: option.splits)
  ultimately show ?case using r(2,3) by auto
qed

lemma collect_node_ids_Inr:
  "collect_node_ids nodes ids = Inr node_ids \<Longrightarrow> \<forall>n \<in> set nodes. node_ok n"
proof (induction nodes arbitrary: ids)
  case Nil
  then show ?case by simp
next
  case (Cons node nodes)
  have ok: "node_ok node"
    using Cons.prems by (auto simp: node_key_cases simp del: collect_node_ids.simps split: if_splits)
  then have "\<exists>ids'. collect_node_ids nodes ids' = Inr node_ids"
    using Cons.prems by (auto simp: node_key_cases simp del: collect_node_ids.simps)
  then show ?case using Cons.IH ok by auto
qed

lemma init_graph_distinct:
  "distinct (map fst graph) \<Longrightarrow> distinct (map fst (init_graph ids graph))"
  by (induction ids arbitrary: graph) (simp_all add: distinct_update)

lemma add_edges_distinct:
  "add_edges edges graph = Inr graph' \<Longrightarrow> distinct (map fst graph) \<Longrightarrow>
   distinct (map fst graph')"
proof (induction edges arbitrary: graph)
  case Nil
  then show ?case by simp
next
  case (Cons edge edges)
  define g where "g = (case edge_pair edge of None \<Rightarrow> graph
     | Some (s, t) \<Rightarrow> if s \<in> fst ` set graph \<and> t \<in> fst ` set graph
         then AList.map_entry s (\<lambda>succs. succs @ [t]) graph else graph)"
  have "add_edges edges g = Inr graph'"
    using Cons.prems(1)
    by (auto simp: g_def add_edges_step simp del: add_edges.simps
        split: option.splits prod.splits if_splits)
  moreover have "distinct (map fst g)"
    using Cons.prems(2) by (simp add: g_def distinct_map_entry split: option.splits prod.splits)
  ultimately show ?case using Cons.IH by blast
qed

section \<open>What the analyzer returns\<close>

lemma pairs_within_subset: "pairs_within V edges \<subseteq> V \<times> V"
  by (auto simp: pairs_within_def)

lemma whites_init_color: "whites (init_color ids []) = set ids"
proof -
  have "map_of (init_color ids []) k = Some WHITE" if "k \<in> set ids" for k
  proof -
    have "k \<in> fst ` set (init_color ids [])" using that by (simp add: init_color_keys)
    then obtain c where c: "map_of (init_color ids []) k = Some c"
      using map_of_in_keys [of "init_color ids []" k] by auto
    then show ?thesis using init_color_white [of "[]" ids k c] by simp
  qed
  moreover have "k \<in> set ids" if "map_of (init_color ids []) k = Some WHITE" for k
    using that map_of_in_keys [of "init_color ids []" k] by (simp add: init_color_keys)
  ultimately show ?thesis by (auto simp: whites_def)
qed

lemma traverse_ok:
  assumes "\<forall>e \<in> set edges. edge_ok (set ids) e"
  shows "traverse limit ids edges = Inr (acyclic (pairs_within (set ids) edges)) \<or>
         (traverse limit ids edges = Inl RecursionError \<and> limit + 1 < card (set ids) \<and>
            pairs_within (set ids) edges \<noteq> {})"
proof -
  let ?g0 = "init_graph ids []"
  let ?c0 = "init_color ids []"
  have keys0: "fst ` set ?g0 = set ids" by (simp add: init_graph_keys)
  have "graph_edges ?g0 = {}" by (rule init_graph_edges) (simp add: graph_edges_def)
  then obtain graph where g: "add_edges edges ?g0 = Inr graph" "fst ` set graph = set ids"
    "graph_edges graph = pairs_within (set ids) edges"
    using add_edges_ok [of edges ?g0] assms keys0 by auto
  have ckeys: "fst ` set ?c0 = set ids" by (simp add: init_color_keys)
  have white: "c = WHITE" if "map_of ?c0 k = Some c" for k c
    using init_color_white [of "[]" ids k c] that by simp
  have nogray: "\<forall>k. map_of ?c0 k \<noteq> Some GRAY" using white by fastforce
  have noblack: "\<forall>k. map_of ?c0 k \<noteq> Some BLACK" using white by fastforce
  have inv: "dfs_inv graph ?c0"
    unfolding dfs_inv_def
    using g(2,3) ckeys white noblack pairs_within_subset [of "set ids" edges]
    by auto
  have "visit_all limit graph ids ?c0 = Inr (acyclic (graph_edges graph)) \<or>
        (visit_all limit graph ids ?c0 = Inl RecursionError \<and> limit + 1 < card (whites ?c0))"
    by (rule visit_all_correct [OF inv nogray]) (simp_all add: ckeys)
  moreover have "visit_all limit graph ids ?c0 \<noteq> Inl RecursionError"
    if "pairs_within (set ids) edges = {}"
    using visit_all_no_edges [of graph limit ids ?c0] that g(3) by simp
  ultimately show ?thesis using g(1,3) by (auto simp: traverse_def whites_init_color)
qed

lemma traverse_Inr:
  assumes "traverse limit ids edges = Inr b"
  shows "\<forall>e \<in> set edges. edge_ok (set ids) e"
proof -
  obtain graph where "add_edges edges (init_graph ids []) = Inr graph"
    using assms by (auto simp: traverse_def split: sum.splits)
  then show ?thesis using add_edges_Inr [of edges "init_graph ids []" graph]
    by (simp add: init_graph_keys)
qed

lemma collect_vertex_set:
  assumes "collect_node_ids nodes [] = Inr node_ids"
  shows "set node_ids = vertex_set nodes" and "list_all node_ok nodes"
proof -
  have n: "\<forall>n \<in> set nodes. node_ok n" by (rule collect_node_ids_Inr [OF assms])
  then show "list_all node_ok nodes" by (simp add: list_all_iff)
  show "set node_ids = vertex_set nodes"
    using collect_node_ids_ok [OF n, of "[]"] assms by auto
qed

lemma dfs_check_ok:
  assumes "well_shaped nodes edges"
  shows "dfs_check limit (PList nodes) (PList edges) = Inr (acyclic (valid_edges nodes edges)) \<or>
         (dfs_check limit (PList nodes) (PList edges) = Inl RecursionError \<and>
            limit + 1 < card (vertex_set nodes) \<and> valid_edges nodes edges \<noteq> {})"
proof -
  have n: "\<forall>n \<in> set nodes. node_ok n" and e: "\<forall>e \<in> set edges. edge_ok (vertex_set nodes) e"
    using assms by (simp_all add: well_shaped_def list_all_iff)
  obtain node_ids where ids: "collect_node_ids nodes [] = Inr node_ids"
    "set node_ids = vertex_set nodes"
    using collect_node_ids_ok [OF n, of "[]"] by auto
  show ?thesis
    using ids traverse_ok [of edges node_ids limit] e
    by (simp add: dfs_check_def valid_edges_def)
qed

lemma dfs_check_Inr:
  assumes "dfs_check limit (PList nodes) (PList edges) = Inr b"
  shows "well_shaped nodes edges \<and> b = acyclic (valid_edges nodes edges)"
proof -
  obtain node_ids where ids: "collect_node_ids nodes [] = Inr node_ids"
    and tr: "traverse limit node_ids edges = Inr b"
    using assms by (auto simp: dfs_check_def split: sum.splits)
  have w: "well_shaped nodes edges"
    using traverse_Inr [OF tr] collect_vertex_set [OF ids]
    by (simp add: well_shaped_def list_all_iff)
  then show ?thesis using dfs_check_ok [OF w, of limit] assms by auto
qed

lemma valid_edges_Nil: "valid_edges nodes [] = {}"
  by (simp add: valid_edges_def pairs_within_def)

lemma acyclic_no_edges: "acyclic (valid_edges nodes [])"
  by (simp add: valid_edges_Nil acyclic_def)

lemma check_Inr:
  assumes "check_is_dag_raw limit (PList nodes) (PList edges) = Inr b"
  shows "(edges = [] \<or> well_shaped nodes edges) \<and> b = acyclic (valid_edges nodes edges)"
proof (cases "edges = []")
  case True
  then show ?thesis using assms acyclic_no_edges [of nodes]
    by (auto simp: check_is_dag_raw_def)
next
  case False
  then show ?thesis using assms dfs_check_Inr [of limit nodes edges b]
    by (simp add: check_is_dag_raw_def)
qed

lemma check_returns:
  assumes "edges = [] \<or>
    well_shaped nodes edges \<and> (card (vertex_set nodes) \<le> limit + 1 \<or> valid_edges nodes edges = {})"
  shows "check_is_dag_raw limit (PList nodes) (PList edges)
           = Inr (acyclic (valid_edges nodes edges))"
proof (cases "edges = []")
  case True
  then show ?thesis using acyclic_no_edges [of nodes] by (simp add: check_is_dag_raw_def)
next
  case False
  then have w: "well_shaped nodes edges"
    and c: "card (vertex_set nodes) \<le> limit + 1 \<or> valid_edges nodes edges = {}"
    using assms by simp_all
  show ?thesis using dfs_check_ok [OF w, of limit] c False
    by (auto simp: check_is_dag_raw_def)
qed

lemma check_error:
  assumes "well_shaped nodes edges"
    and "check_is_dag_raw limit (PList nodes) (PList edges) = Inl e"
  shows "e = RecursionError \<and> limit + 1 < card (vertex_set nodes)"
  using assms dfs_check_ok [OF assms(1), of limit]
  by (auto simp: check_is_dag_raw_def split: if_splits)

lemma plain_well_shaped:
  assumes "list_all node_ok nodes" "list_all edge_plain edges"
  shows "well_shaped nodes edges"
proof -
  have "edge_ok V e" if "edge_plain e" for e V
    using that by (auto simp: edge_plain_def edge_ok_def hashable_def split: sum.splits if_splits)
  then show ?thesis using assms by (auto simp: well_shaped_def list_all_iff)
qed

lemma well_shaped_set:
  "set nodes' = set nodes \<Longrightarrow> set edges' = set edges \<Longrightarrow>
   well_shaped nodes' edges' = well_shaped nodes edges"
  by (simp add: well_shaped_def list_all_iff vertex_set_def)

lemma valid_edges_set:
  "set nodes' = set nodes \<Longrightarrow> set edges' = set edges \<Longrightarrow>
   valid_edges nodes' edges' = valid_edges nodes edges"
  by (simp add: valid_edges_def pairs_within_def vertex_set_def)

lemma vertex_set_set: "set nodes' = set nodes \<Longrightarrow> vertex_set nodes' = vertex_set nodes"
  by (simp add: vertex_set_def)

lemma traverse_order_irrelevant:
  assumes "set ids' = set ids" and "traverse limit ids edges = Inr b"
    and "traverse limit ids' edges = Inr b'"
  shows "b' = b"
  using assms traverse_ok [of edges ids limit] traverse_ok [of edges ids' limit]
    traverse_Inr [OF assms(2)] traverse_Inr [OF assms(3)]
  by auto





lemma finite_vertex_set: "finite (vertex_set nodes)"
proof (induction nodes)
  case Nil
  then show ?case by (simp add: vertex_set_def)
next
  case (Cons node nodes)
  then show ?case by (simp add: vertex_set_Cons split: option.splits)
qed

lemma card_vertex_set_le: "card (vertex_set nodes) \<le> length nodes"
proof (induction nodes)
  case Nil
  then show ?case by (simp add: vertex_set_def)
next
  case (Cons node nodes)
  show ?case
  proof (cases "node_key node")
    case None
    then show ?thesis using Cons by (simp add: vertex_set_Cons)
  next
    case (Some k)
    have "card (insert k (vertex_set nodes)) \<le> Suc (card (vertex_set nodes))"
      by (simp add: card_insert_if finite_vertex_set)
    then show ?thesis using Cons Some by (simp add: vertex_set_Cons)
  qed
qed

section \<open>Searches that exceed the recursion limit\<close>

text \<open>
  The adjacency lists in the order the edge loop builds them, a chain of white nodes that
  uses up any given room, and the fan, on which no call is nested more than once.
\<close>

lemma succs_of_append: "succs_of V (xs @ ys) k = succs_of V xs k @ succs_of V ys k"
  by (induction xs) (auto split: option.splits)

lemma add_edges_adjacency:
  "\<forall>e \<in> set edges. edge_ok (fst ` set graph) e \<Longrightarrow>
   \<exists>graph'. add_edges edges graph = Inr graph' \<and>
     (\<forall>k. map_of graph' k
        = map_option (\<lambda>succs. succs @ succs_of (fst ` set graph) edges k) (map_of graph k))"
proof (induction edges arbitrary: graph)
  case Nil
  then show ?case by (simp add: option.map_ident)
next
  case (Cons edge edges)
  let ?V = "fst ` set graph"
  have ok: "edge_ok ?V edge" and rest: "\<forall>e \<in> set edges. edge_ok ?V e"
    using Cons.prems by simp_all
  show ?case
  proof (cases "\<exists>s t. edge_pair edge = Some (s, t) \<and> s \<in> ?V \<and> t \<in> ?V")
    case True
    then obtain s t where st: "edge_pair edge = Some (s, t)" "s \<in> ?V" "t \<in> ?V" by blast
    let ?g = "AList.map_entry s (\<lambda>succs. succs @ [t]) graph"
    have keys: "fst ` set ?g = ?V" by (rule dom_map_entry)
    obtain graph' where g': "add_edges edges ?g = Inr graph'"
      "\<forall>k. map_of graph' k
        = map_option (\<lambda>succs. succs @ succs_of ?V edges k) (map_of ?g k)"
      using Cons.IH [of ?g] rest keys by auto
    have "add_edges (edge # edges) graph = Inr graph'"
      using ok st g'(1) by (simp add: add_edges_step del: add_edges.simps)
    moreover have "map_of graph' k
        = map_option (\<lambda>succs. succs @ succs_of ?V (edge # edges) k) (map_of graph k)" for k
      using g'(2) st by (cases "map_of graph s") (auto simp: map_of_map_entry)
    ultimately show ?thesis by blast
  next
    case False
    obtain graph' where g': "add_edges edges graph = Inr graph'"
      "\<forall>k. map_of graph' k
        = map_option (\<lambda>succs. succs @ succs_of ?V edges k) (map_of graph k)"
      using Cons.IH [of graph] rest by auto
    have "add_edges (edge # edges) graph = Inr graph'"
      using ok False g'(1)
      by (auto simp: add_edges_step simp del: add_edges.simps split: option.splits)
    moreover have "succs_of ?V (edge # edges) k = succs_of ?V edges k" for k
      using False by (auto split: option.splits)
    ultimately show ?thesis using g'(2) by simp
  qed
qed

lemma map_of_init_graph:
  "map_of (init_graph ids []) k = (if k \<in> set ids then Some [] else None)"
proof -
  have "map_of (init_graph ids graph) k
      = (if k \<in> set ids then Some [] else map_of graph k)" for graph
    by (induction ids arbitrary: graph) (auto simp: update_conv')
  then show ?thesis by simp
qed

lemma loop_all_black:
  "\<forall>s \<in> set succs. map_of color s = Some BLACK \<Longrightarrow>
   has_cycle_loop depth graph node succs color = Inr (False, AList.update node BLACK color)"
  by (induction succs) simp_all

lemma has_cycle_all_black:
  assumes "map_of graph node = Some succs"
    and "\<forall>s \<in> set succs. s \<noteq> node \<and> map_of color s = Some BLACK"
  shows "has_cycle depth graph node color
           = Inr (False, AList.update node BLACK (AList.update node GRAY color))"
proof -
  have "\<forall>s \<in> set succs. map_of (AList.update node GRAY color) s = Some BLACK"
    using assms(2) by (simp add: update_conv')
  then show ?thesis using assms(1) loop_all_black by simp
qed

lemma visit_all_black:
  "\<forall>k \<in> set ids. map_of color k = Some BLACK \<Longrightarrow> visit_all limit graph ids color = Inr True"
  by (induction ids) simp_all

lemma chain_overflow:
  assumes chain: "\<And>i. 1 \<le> i \<Longrightarrow> i < n \<Longrightarrow> \<exists>rest. map_of graph (f i) = Some (f (Suc i) # rest)"
    and inj: "inj f"
  shows "1 \<le> i \<Longrightarrow> depth < n - i \<Longrightarrow>
     (\<forall>j. i \<le> j \<and> j \<le> n \<longrightarrow> map_of color (f j) = Some WHITE) \<Longrightarrow>
     has_cycle depth graph (f i) color = Inl RecursionError"
proof (induction depth arbitrary: i color)
  case 0
  then have "i < n" by simp
  then obtain rest where g: "map_of graph (f i) = Some (f (Suc i) # rest)"
    using chain "0.prems"(1) by blast
  have "f (Suc i) \<noteq> f i" using inj by (simp add: inj_eq)
  then have "map_of (AList.update (f i) GRAY color) (f (Suc i)) = Some WHITE"
    using "0.prems"(3) \<open>i < n\<close> by (simp add: update_conv')
  then show ?case using g by simp
next
  case (Suc d)
  then have "i < n" by simp
  then obtain rest where g: "map_of graph (f i) = Some (f (Suc i) # rest)"
    using chain Suc.prems(1) by blast
  let ?c1 = "AList.update (f i) GRAY color"
  have ne: "f j \<noteq> f i" if "Suc i \<le> j" for j using inj that by (simp add: inj_eq)
  have w: "\<forall>j. Suc i \<le> j \<and> j \<le> n \<longrightarrow> map_of ?c1 (f j) = Some WHITE"
    using Suc.prems(3) ne by (simp add: update_conv')
  have "has_cycle d graph (f (Suc i)) ?c1 = Inl RecursionError"
    using Suc.IH [of "Suc i" ?c1] Suc.prems(2) w by simp
  moreover have "map_of ?c1 (f (Suc i)) = Some WHITE" using w \<open>i < n\<close> by simp
  ultimately show ?case using g by simp
qed

lemma fan_loop:
  assumes leaf: "\<And>i. 2 \<le> i \<Longrightarrow> i \<le> n \<Longrightarrow>
      \<exists>succs. map_of graph (f i) = Some succs \<and> set succs \<subseteq> {f (Suc i)} \<and> (i = n \<longrightarrow> succs = [])"
    and inj: "inj f"
  shows "j \<le> n \<Longrightarrow>
     (\<forall>i. 2 \<le> i \<and> i \<le> j \<longrightarrow> map_of color (f i) = Some WHITE) \<Longrightarrow>
     (\<forall>i. j < i \<and> i \<le> n \<longrightarrow> map_of color (f i) = Some BLACK) \<Longrightarrow>
     \<exists>color'. has_cycle_loop (Suc depth) graph (f 1) (map f (rev [2..<Suc j])) color
                 = Inr (False, color') \<and>
       (\<forall>i. 1 \<le> i \<and> i \<le> n \<longrightarrow> map_of color' (f i) = Some BLACK)"
proof (induction j arbitrary: color)
  case 0
  then show ?case by (auto simp: update_conv')
next
  case (Suc j)
  show ?case
  proof (cases "j = 0")
    case True
    have "map_of (AList.update (f 1) BLACK color) (f i) = Some BLACK"
      if "1 \<le> i \<and> i \<le> n" for i
    proof (cases "i = 1")
      case True
      then show ?thesis by (simp add: update_conv')
    next
      case False
      then have "Suc j < i" using that \<open>j = 0\<close> by simp
      then show ?thesis using Suc.prems(3) that by (simp add: update_conv')
    qed
    then show ?thesis using True by simp
  next
    case False
    then have j2: "2 \<le> Suc j" by simp
    have list: "map f (rev [2..<Suc (Suc j)]) = f (Suc j) # map f (rev [2..<Suc j])"
      using j2 by simp
    obtain succs where s: "map_of graph (f (Suc j)) = Some succs"
      "set succs \<subseteq> {f (Suc (Suc j))}" "Suc j = n \<longrightarrow> succs = []"
      using leaf [OF j2 Suc.prems(1)] by blast
    have white: "map_of color (f (Suc j)) = Some WHITE" using Suc.prems(2) j2 by simp
    have black: "\<forall>x \<in> set succs. x \<noteq> f (Suc j) \<and> map_of color x = Some BLACK"
    proof
      fix x assume x: "x \<in> set succs"
      then have "x = f (Suc (Suc j))" using s(2) by auto
      moreover have "Suc j \<noteq> n" using x s(3) by auto
      ultimately show "x \<noteq> f (Suc j) \<and> map_of color x = Some BLACK"
        using Suc.prems(1,3) inj by (simp add: inj_eq)
    qed
    let ?c1 = "AList.update (f (Suc j)) BLACK (AList.update (f (Suc j)) GRAY color)"
    have call: "has_cycle depth graph (f (Suc j)) color = Inr (False, ?c1)"
      by (rule has_cycle_all_black [OF s(1) black])
    have other: "map_of ?c1 (f i) = map_of color (f i)" if "i \<noteq> Suc j" for i
      using that inj by (simp add: update_conv' inj_eq)
    have w1: "\<forall>i. 2 \<le> i \<and> i \<le> j \<longrightarrow> map_of ?c1 (f i) = Some WHITE"
      using Suc.prems(2) other by simp
    have b1: "\<forall>i. j < i \<and> i \<le> n \<longrightarrow> map_of ?c1 (f i) = Some BLACK"
    proof (intro allI impI)
      fix i assume i: "j < i \<and> i \<le> n"
      show "map_of ?c1 (f i) = Some BLACK"
      proof (cases "i = Suc j")
        case True
        then show ?thesis by (simp add: update_conv')
      next
        case False
        then show ?thesis using other [OF False] Suc.prems(3) i by simp
      qed
    qed
    have "j \<le> n" using Suc.prems(1) by simp
    from Suc.IH [OF this w1 b1] obtain color'
      where r: "has_cycle_loop (Suc depth) graph (f 1) (map f (rev [2..<Suc j])) ?c1
                  = Inr (False, color')"
        and p: "\<forall>i. 1 \<le> i \<and> i \<le> n \<longrightarrow> map_of color' (f i) = Some BLACK"
      by blast
    have "has_cycle_loop (Suc depth) graph (f 1) (map f (rev [2..<Suc (Suc j)])) color
        = Inr (False, color')"
      unfolding list using white call r by simp
    then show ?thesis using p by blast
  qed
qed

lemma inj_kid: "inj kid"
  by (simp add: inj_def kid_def)

lemma kid_eq [simp]: "kid i = kid j \<longleftrightarrow> i = j"
  by (simp add: kid_def)

lemma edge_pair_rec: "0 < s \<Longrightarrow> 0 < t \<Longrightarrow> edge_pair (edge_rec s t) = Some (kid s, kid t)"
  by (simp add: edge_pair_def edge_rec_def kid_def)

lemma edge_ok_rec: "edge_ok V (edge_rec s t)"
  by (simp add: edge_ok_def edge_rec_def hashable_def)

lemma collect_node_rec:
  "0 < x \<Longrightarrow> collect_node_ids (node_rec x # nodes) ids
     = collect_node_ids nodes (if kid x \<in> set ids then ids else ids @ [kid x])"
  by (simp add: node_rec_def kid_def)

lemma collect_node_recs:
  "distinct xs \<Longrightarrow> 0 \<notin> set xs \<Longrightarrow> kid ` set xs \<inter> set ids = {} \<Longrightarrow>
   collect_node_ids (map node_rec xs) ids = Inr (ids @ map kid xs)"
proof (induction xs arbitrary: ids)
  case Nil
  then show ?case by simp
next
  case (Cons x xs)
  have x: "0 < x" "kid x \<notin> set ids" using Cons.prems by auto
  have "kid ` set xs \<inter> set (ids @ [kid x]) = {}" using Cons.prems by auto
  then have "collect_node_ids (map node_rec xs) (ids @ [kid x])
      = Inr ((ids @ [kid x]) @ map kid xs)"
    using Cons.IH [of "ids @ [kid x]"] Cons.prems by simp
  then show ?case using x by (simp add: collect_node_rec del: collect_node_ids.simps)
qed

lemma fan_node_ids: "collect_node_ids (fan_nodes n) [] = Inr (map kid [1..<Suc n])"
  using collect_node_recs [of "[1..<Suc n]" "[]"] by (simp add: fan_nodes_def)

lemma succs_of_fan:
  "0 < a \<Longrightarrow> kid a \<in> V \<Longrightarrow> \<forall>x \<in> set xs. 0 < x \<and> kid x \<in> V \<Longrightarrow>
   succs_of V (map (edge_rec a) xs) k = (if k = kid a then map kid xs else [])"
  by (induction xs) (auto simp: edge_pair_rec)

lemma succs_of_chain:
  "distinct xs \<Longrightarrow> \<forall>x \<in> set xs. 0 < x \<and> kid x \<in> V \<and> kid (Suc x) \<in> V \<Longrightarrow>
   succs_of V (map (\<lambda>i. edge_rec i (Suc i)) xs) (kid m)
     = (if m \<in> set xs then [kid (Suc m)] else [])"
  by (induction xs) (auto simp: edge_pair_rec)

text \<open>The search on the fan nodes with any edge list whose records are well shaped.\<close>

lemma fan_run:
  assumes "edges \<noteq> []" and "\<forall>e \<in> set edges. edge_ok (kid ` {1..n}) e"
  shows "\<exists>graph. check_is_dag_raw limit (PList (fan_nodes n)) (PList edges)
           = visit_all limit graph (map kid [1..<Suc n]) (init_color (map kid [1..<Suc n]) []) \<and>
         (\<forall>i. 1 \<le> i \<and> i \<le> n \<longrightarrow>
            map_of graph (kid i) = Some (succs_of (kid ` {1..n}) edges (kid i)))"
proof -
  let ?ids = "map kid [1..<Suc n]"
  have V: "set ?ids = kid ` {1..n}" by auto
  have keys0: "fst ` set (init_graph ?ids []) = kid ` {1..n}"
    using V by (simp add: init_graph_keys)
  obtain graph where g: "add_edges edges (init_graph ?ids []) = Inr graph"
    "\<forall>k. map_of graph k
        = map_option (\<lambda>succs. succs @ succs_of (kid ` {1..n}) edges k)
            (map_of (init_graph ?ids []) k)"
    using add_edges_adjacency [of edges "init_graph ?ids []"] assms(2) keys0 by auto
  have "map_of graph (kid i) = Some (succs_of (kid ` {1..n}) edges (kid i))"
    if "1 \<le> i \<and> i \<le> n" for i
    using g(2) that by (auto simp: map_of_init_graph)
  moreover have "check_is_dag_raw limit (PList (fan_nodes n)) (PList edges)
      = visit_all limit graph ?ids (init_color ?ids [])"
    using assms(1) g(1) fan_node_ids [of n]
    by (simp add: check_is_dag_raw_def dfs_check_def traverse_def)
  ultimately show ?thesis by blast
qed

lemma fan_colors:
  "1 \<le> i \<Longrightarrow> i \<le> n \<Longrightarrow> map_of (init_color (map kid [1..<Suc n]) []) (kid i) = Some WHITE"
proof -
  assume "1 \<le> i" "i \<le> n"
  then have "kid i \<in> whites (init_color (map kid [1..<Suc n]) [])"
    by (auto simp: whites_init_color)
  then show ?thesis by (simp add: whites_def)
qed

lemma upt_from_1: "1 \<le> n \<Longrightarrow> [1..<Suc n] = 1 # [2..<Suc n]"
proof -
  assume "1 \<le> n"
  then have "[1..<Suc n] = 1 # [Suc 1..<Suc n]" by (intro upt_conv_Cons) simp
  then show ?thesis by (simp only: Suc_1)
qed

lemma upt_from_2: "2 \<le> n \<Longrightarrow> \<exists>rest. [2..<Suc n] = 2 # rest"
proof -
  assume "2 \<le> n"
  then have "[2..<Suc n] = 2 # [Suc 2..<Suc n]" by (intro upt_conv_Cons) simp
  then show ?thesis by blast
qed

lemma deep_overflow:
  assumes "edges \<noteq> []" and "\<forall>e \<in> set edges. edge_ok (kid ` {1..n}) e"
    and heads: "\<And>i. 1 \<le> i \<Longrightarrow> i < n \<Longrightarrow>
      \<exists>rest. succs_of (kid ` {1..n}) edges (kid i) = kid (Suc i) # rest"
    and deep: "limit < n - 1"
  shows "check_is_dag_raw limit (PList (fan_nodes n)) (PList edges) = Inl RecursionError"
proof -
  define c0 where "c0 = init_color (map kid [1..<Suc n]) []"
  obtain graph where run: "check_is_dag_raw limit (PList (fan_nodes n)) (PList edges)
      = visit_all limit graph (map kid [1..<Suc n]) c0"
    and adj: "\<forall>i. 1 \<le> i \<and> i \<le> n \<longrightarrow>
      map_of graph (kid i) = Some (succs_of (kid ` {1..n}) edges (kid i))"
    unfolding c0_def using fan_run [OF assms(1,2), of limit] by blast
  have chain: "\<exists>rest. map_of graph (kid i) = Some (kid (Suc i) # rest)"
    if "1 \<le> i" "i < n" for i
    using heads [OF that] adj that by auto
  have white: "\<forall>j. 1 \<le> j \<and> j \<le> n \<longrightarrow> map_of c0 (kid j) = Some WHITE"
    unfolding c0_def using fan_colors [of _ n] by blast
  have call: "has_cycle limit graph (kid 1) c0 = Inl RecursionError"
    by (rule chain_overflow [where n = n, OF chain inj_kid _ deep white]) simp_all
  have ids: "map kid [1..<Suc n] = kid 1 # map kid [2..<Suc n]"
    using deep upt_from_1 [of n] by (simp del: upt_Suc)
  have white1: "map_of c0 (kid 1) = Some WHITE" using white deep by simp
  have "visit_all limit graph (kid 1 # map kid [2..<Suc n]) c0 = Inl RecursionError"
    using white1 call by (simp del: has_cycle.simps)
  then show ?thesis using run ids by simp
qed

lemma fan_edges_succs:
  assumes "2 \<le> n"
  shows "succs_of (kid ` {1..n}) (fan_edges n) (kid 1) = map kid (rev [2..<Suc n])"
    and "2 \<le> i \<Longrightarrow> i \<le> n \<Longrightarrow>
         succs_of (kid ` {1..n}) (fan_edges n) (kid i) = (if i < n then [kid (Suc i)] else [])"
proof -
  let ?V = "kid ` {1..n}"
  have fan: "succs_of ?V (map (edge_rec 1) (rev [2..<Suc n])) k
      = (if k = kid 1 then map kid (rev [2..<Suc n]) else [])" for k
    using assms by (intro succs_of_fan) auto
  have chain: "succs_of ?V (map (\<lambda>i. edge_rec i (Suc i)) [2..<n]) (kid m)
      = (if m \<in> set [2..<n] then [kid (Suc m)] else [])" for m
    by (intro succs_of_chain) auto
  show "succs_of ?V (fan_edges n) (kid 1) = map kid (rev [2..<Suc n])"
    using fan [of "kid 1"] chain [of 1]
    by (simp add: fan_edges_def succs_of_append del: upt_Suc)
  show "succs_of ?V (fan_edges n) (kid i) = (if i < n then [kid (Suc i)] else [])"
    if "2 \<le> i" "i \<le> n"
    using fan [of "kid i"] chain [of i] that
    by (simp add: fan_edges_def succs_of_append del: upt_Suc)
qed

lemma fan_edges_ok: "\<forall>e \<in> set (fan_edges n). edge_ok V e"
  by (auto simp: fan_edges_def edge_ok_rec)

lemma fan_returns:
  assumes "0 < limit" and "2 \<le> n"
  shows "check_is_dag_raw limit (PList (fan_nodes n)) (PList (fan_edges n)) = Inr True"
proof -
  define c0 where "c0 = init_color (map kid [1..<Suc n]) []"
  define fan where "fan = map kid (rev [2..<Suc n])"
  obtain d where d: "limit = Suc d" using assms(1) by (cases limit) auto
  have ne: "fan_edges n \<noteq> []" using assms(2) by (simp add: fan_edges_def del: upt_Suc)
  obtain graph where run: "check_is_dag_raw limit (PList (fan_nodes n)) (PList (fan_edges n))
      = visit_all limit graph (map kid [1..<Suc n]) c0"
    and adj: "\<forall>i. 1 \<le> i \<and> i \<le> n \<longrightarrow>
      map_of graph (kid i) = Some (succs_of (kid ` {1..n}) (fan_edges n) (kid i))"
    unfolding c0_def
    using fan_run [where n = n and limit = limit, OF ne fan_edges_ok] by blast
  have g1: "map_of graph (kid 1) = Some fan"
    unfolding fan_def using adj fan_edges_succs(1) [OF assms(2)] assms(2) by auto
  have leaf: "\<exists>succs. map_of graph (kid i) = Some succs \<and> set succs \<subseteq> {kid (Suc i)} \<and>
      (i = n \<longrightarrow> succs = [])" if "2 \<le> i" "i \<le> n" for i
  proof -
    have "map_of graph (kid i) = Some (if i < n then [kid (Suc i)] else [])"
      using adj fan_edges_succs(2) [OF assms(2) that] that by auto
    then show ?thesis by auto
  qed
  have white: "\<forall>j. 1 \<le> j \<and> j \<le> n \<longrightarrow> map_of c0 (kid j) = Some WHITE"
    unfolding c0_def using fan_colors [of _ n] by blast
  define c1 where "c1 = AList.update (kid 1) GRAY c0"
  have w: "\<forall>i. 2 \<le> i \<and> i \<le> n \<longrightarrow> map_of c1 (kid i) = Some WHITE"
    unfolding c1_def using white by (simp add: update_conv')
  have b: "\<forall>i. n < i \<and> i \<le> n \<longrightarrow> map_of c1 (kid i) = Some BLACK" by auto
  obtain color' where loop: "has_cycle_loop (Suc d) graph (kid 1) fan c1 = Inr (False, color')"
    and black: "\<forall>i. 1 \<le> i \<and> i \<le> n \<longrightarrow> map_of color' (kid i) = Some BLACK"
    unfolding fan_def
    using fan_loop [where f = kid and n = n and j = n and color = c1 and depth = d
        and graph = graph, OF leaf inj_kid order_refl w b]
    by blast
  have call: "has_cycle limit graph (kid 1) c0 = Inr (False, color')"
    using g1 loop d c1_def by simp
  have ids: "map kid [1..<Suc n] = kid 1 # map kid [2..<Suc n]"
    using assms(2) upt_from_1 [of n] by (simp del: upt_Suc)
  have white1: "map_of c0 (kid 1) = Some WHITE" using assms(2) white by simp
  have rest: "visit_all limit graph (map kid [2..<Suc n]) color' = Inr True"
    by (rule visit_all_black) (use black in auto)
  have "visit_all limit graph (kid 1 # map kid [2..<Suc n]) c0 = Inr True"
    using white1 call rest by (simp del: has_cycle.simps)
  then show ?thesis using run ids by simp
qed

lemma fan_edges_rev_heads:
  assumes "1 \<le> i" and "i < n"
  shows "\<exists>rest. succs_of (kid ` {1..n}) (rev (fan_edges n)) (kid i) = kid (Suc i) # rest"
proof -
  let ?V = "kid ` {1..n}"
  have r: "rev (fan_edges n)
      = map (\<lambda>i. edge_rec i (Suc i)) (rev [2..<n]) @ map (edge_rec 1) [2..<Suc n]"
    by (simp add: fan_edges_def rev_map del: upt_Suc)
  have fan: "succs_of ?V (map (edge_rec 1) [2..<Suc n]) k
      = (if k = kid 1 then map kid [2..<Suc n] else [])" for k
    using assms by (intro succs_of_fan) auto
  have chain: "succs_of ?V (map (\<lambda>i. edge_rec i (Suc i)) (rev [2..<n])) (kid m)
      = (if m \<in> set (rev [2..<n]) then [kid (Suc m)] else [])" for m
    by (intro succs_of_chain) auto
  show ?thesis
  proof (cases "i = 1")
    case True
    obtain rest where "[2..<Suc n] = 2 # rest" using upt_from_2 [of n] assms True by auto
    then show ?thesis using fan [of "kid 1"] chain [of 1] assms True
      by (simp add: r succs_of_append del: upt_Suc)
  next
    case False
    then show ?thesis using fan [of "kid i"] chain [of i] assms
      by (simp add: r succs_of_append del: upt_Suc)
  qed
qed


lemma fan_edges_nonempty: "2 \<le> n \<Longrightarrow> edge_rec 1 2 \<in> set (fan_edges n)"
proof -
  assume "2 \<le> n"
  then have "2 \<in> set (rev [2..<Suc n])" by auto
  then have "edge_rec 1 2 \<in> edge_rec 1 ` set (rev [2..<Suc n])" by (rule imageI)
  then show ?thesis by (simp add: fan_edges_def del: upt_Suc set_rev set_upt)
qed

lemma fan_reversed_overflows:
  assumes "limit < n - 1"
  shows "check_is_dag_raw limit (PList (fan_nodes n)) (PList (rev (fan_edges n)))
           = Inl RecursionError"
proof (rule deep_overflow [OF _ _ _ assms])
  have "2 \<le> n" using assms by linarith
  then show "rev (fan_edges n) \<noteq> []" using fan_edges_nonempty [of n] by auto
  show "\<forall>e \<in> set (rev (fan_edges n)). edge_ok (kid ` {1..n}) e"
    using fan_edges_ok [of n] by simp
  show "\<exists>rest. succs_of (kid ` {1..n}) (rev (fan_edges n)) (kid i) = kid (Suc i) # rest"
    if "1 \<le> i" "i < n" for i
    by (rule fan_edges_rev_heads [OF that])
qed


lemma chain_overflows:
  assumes "limit < n - 1"
  shows "check_is_dag_raw limit (PList (fan_nodes n)) (PList (chain_edges n))
           = Inl RecursionError"
proof (rule deep_overflow [OF _ _ _ assms])
  have "1 < n" using assms by linarith
  then show "chain_edges n \<noteq> []" by (simp add: chain_edges_def)
  show "\<forall>e \<in> set (chain_edges n). edge_ok (kid ` {1..n}) e"
    by (auto simp: chain_edges_def edge_ok_rec)
  show "\<exists>rest. succs_of (kid ` {1..n}) (chain_edges n) (kid i) = kid (Suc i) # rest"
    if "1 \<le> i" "i < n" for i
  proof -
    have "succs_of (kid ` {1..n}) (map (\<lambda>i. edge_rec i (Suc i)) [1..<n]) (kid i)
        = (if i \<in> set [1..<n] then [kid (Suc i)] else [])"
      by (intro succs_of_chain) auto
    then show ?thesis using that by (simp add: chain_edges_def)
  qed
qed

section \<open>Properties of the analyzer and of the endpoint\<close>

text \<open>
  In the statements below \<open>limit\<close> is the room the interpreter leaves for calls of
  \<open>has_cycle\<close> nested inside an outermost one; with the default recursion limit it is a
  little under a thousand.
\<close>

text \<open>
  C1. Whenever the analyzer returns, \<open>is_dag\<close> says that the graph of valid identifiers
  and valid pairs has no directed cycle. It returns when the edge list is empty, and when
  every record is well shaped and the search fits the recursion limit: the distinct valid
  identifiers number at most \<open>limit + 1\<close>, or no edge is valid.
\<close>

theorem is_dag_iff_acyclic:
  "(check_is_dag_raw limit (PList nodes) (PList edges) = Inr b \<longrightarrow>
      (b \<longleftrightarrow> acyclic (valid_edges nodes edges))) \<and>
   (edges = [] \<or>
    well_shaped nodes edges \<and>
      (card (vertex_set nodes) \<le> limit + 1 \<or> valid_edges nodes edges = {}) \<longrightarrow>
      check_is_dag_raw limit (PList nodes) (PList edges)
        = Inr (acyclic (valid_edges nodes edges)))"
  using check_Inr [of limit nodes edges b] check_returns [of edges nodes limit] by blast

theorem is_dag_iff_acyclic_witness:
  "well_shaped
     [PDict [(''id'', PStr ''a'')], PDict [(''id'', PStr ''b'')], PDict [(''id'', PStr ''c'')]]
     [PDict [(''source'', PStr ''a''), (''target'', PStr ''b'')],
      PDict [(''source'', PStr ''b''), (''target'', PStr ''c'')],
      PDict [(''source'', PStr ''c''), (''target'', PStr ''a'')]] \<and>
   card (vertex_set
     [PDict [(''id'', PStr ''a'')], PDict [(''id'', PStr ''b'')], PDict [(''id'', PStr ''c'')]])
     \<le> 1000 + 1 \<and>
   check_is_dag_raw 1000
     (PList [PDict [(''id'', PStr ''a'')], PDict [(''id'', PStr ''b'')], PDict [(''id'', PStr ''c'')]])
     (PList [PDict [(''source'', PStr ''a''), (''target'', PStr ''b'')],
             PDict [(''source'', PStr ''b''), (''target'', PStr ''c'')],
             PDict [(''source'', PStr ''c''), (''target'', PStr ''a'')]]) = Inr False
   \<and> \<not> acyclic (valid_edges
     [PDict [(''id'', PStr ''a'')], PDict [(''id'', PStr ''b'')], PDict [(''id'', PStr ''c'')]]
     [PDict [(''source'', PStr ''a''), (''target'', PStr ''b'')],
      PDict [(''source'', PStr ''b''), (''target'', PStr ''c'')],
      PDict [(''source'', PStr ''c''), (''target'', PStr ''a'')]])"
proof -
  let ?nodes = "[PDict [(''id'', PStr ''a'')], PDict [(''id'', PStr ''b'')], PDict [(''id'', PStr ''c'')]]"
  let ?edges = "[PDict [(''source'', PStr ''a''), (''target'', PStr ''b'')],
                 PDict [(''source'', PStr ''b''), (''target'', PStr ''c'')],
                 PDict [(''source'', PStr ''c''), (''target'', PStr ''a'')]]"
  have w: "well_shaped ?nodes ?edges"
    by (simp add: well_shaped_def node_ok_def edge_ok_def vertex_set_def node_key_def
        hashable_def)
  have c: "card (vertex_set ?nodes) \<le> 1000 + 1"
    using card_vertex_set_le [of ?nodes] by simp
  have run: "check_is_dag_raw 1000 (PList ?nodes) (PList ?edges) = Inr False"
    by code_simp
  show ?thesis
    using w c run is_dag_iff_acyclic [of 1000 ?nodes ?edges False] by simp
qed

text \<open>
  C1, not every input has a returned \<open>is_dag\<close>: with a source that is a non-empty
  object the graph is acyclic and the analyzer raises.
\<close>

theorem is_dag_not_returned:
  "check_is_dag_raw 1000 (PList [PDict [(''id'', PStr ''a'')]])
     (PList [PDict [(''source'', PDict [(''k'', PNum 1)]), (''target'', PStr ''a'')]])
     = Inl TypeError \<and>
   acyclic (valid_edges [PDict [(''id'', PStr ''a'')]]
     [PDict [(''source'', PDict [(''k'', PNum 1)]), (''target'', PStr ''a'')]])"
proof -
  have "valid_edges [PDict [(''id'', PStr ''a'')]]
     [PDict [(''source'', PDict [(''k'', PNum 1)]), (''target'', PStr ''a'')]] = {}"
    by (simp add: valid_edges_def pairs_within_def edge_pair_def)
  then show ?thesis
    by (simp add: acyclic_def check_is_dag_raw_def dfs_check_def traverse_def)
qed



text \<open>
  C3. A body that cannot be decoded, or that is not an object, makes the handler return
  the pair of an error dict and 400 as an ordinary value, which is sent with status 200:
  no client error is signalled.
\<close>

theorem error_tuple_sent_as_success:
  "parse_pipeline limit None = Error_tuple JSONDecodeError 400 \<and>
   status_code (parse_pipeline limit None) = 200 \<and>
   parse_pipeline limit (Some (PList [PNum 1, PNum 2])) = Error_tuple AttributeError 400 \<and>
   status_code (parse_pipeline limit (Some (PList [PNum 1, PNum 2]))) = 200"
  by (simp add: parse_pipeline_def analyse_def)

text \<open>
  C4. With an empty edge list the analyzer returns true for every node list. The general
  traversal agrees when every node record is a mapping whose truthy identifier is
  hashable, and returns true whenever it returns.
\<close>

theorem short_circuit_equivalent:
  "check_is_dag_raw limit (PList nodes) (PList []) = Inr True \<and>
   (list_all node_ok nodes \<longrightarrow>
      dfs_check limit (PList nodes) (PList [])
        = check_is_dag_raw limit (PList nodes) (PList [])) \<and>
   (\<forall>b. dfs_check limit (PList nodes) (PList []) = Inr b \<longrightarrow> b)"
proof -
  have "dfs_check limit (PList nodes) (PList []) = Inr True" if "list_all node_ok nodes"
    using dfs_check_ok [OF plain_well_shaped [OF that, of "[]"], of limit]
      acyclic_no_edges [of nodes]
    by (simp add: valid_edges_Nil)
  moreover have "b" if "dfs_check limit (PList nodes) (PList []) = Inr b" for b
    using dfs_check_Inr [OF that] by (simp add: acyclic_no_edges)
  ultimately show ?thesis by (auto simp: check_is_dag_raw_def)
qed

theorem short_circuit_equivalent_witness:
  "list_all node_ok [PDict [(''id'', PStr ''a'')], PDict [], PDict [(''id'', PNum 7)]] \<and>
   dfs_check 1000 (PList [PDict [(''id'', PStr ''a'')], PDict [], PDict [(''id'', PNum 7)]])
     (PList []) = Inr True \<and>
   check_is_dag_raw 1000 (PList [PDict [(''id'', PStr ''a'')], PDict [], PDict [(''id'', PNum 7)]])
     (PList []) = Inr True"
proof -
  have h: "list_all node_ok [PDict [(''id'', PStr ''a'')], PDict [], PDict [(''id'', PNum 7)]]"
    by (simp add: node_ok_def hashable_def)
  show ?thesis
    using h short_circuit_equivalent
      [of 1000 "[PDict [(''id'', PStr ''a'')], PDict [], PDict [(''id'', PNum 7)]]"]
    by simp
qed

text \<open>
  C4, the unrestricted equivalence fails: on a node whose identifier is a non-empty list
  the short-circuit returns true and the traversal raises.
\<close>

theorem short_circuit_counterexample:
  "check_is_dag_raw 1000 (PList [PDict [(''id'', PList [PStr ''x''])]]) (PList []) = Inr True \<and>
   dfs_check 1000 (PList [PDict [(''id'', PList [PStr ''x''])]]) (PList []) = Inl TypeError"
  by (simp add: check_is_dag_raw_def dfs_check_def)

text \<open>
  C5. With a self-loop edge on a vertex among the edges the analyzer never returns true;
  it returns false when the records are well shaped and the distinct valid identifiers
  number at most \<open>limit + 1\<close>.
\<close>

theorem self_loop_not_dag:
  assumes "edge \<in> set edges" and "edge_pair edge = Some (k, k)" and "k \<in> vertex_set nodes"
  shows "check_is_dag_raw limit (PList nodes) (PList edges) \<noteq> Inr True \<and>
         (well_shaped nodes edges \<and> card (vertex_set nodes) \<le> limit + 1 \<longrightarrow>
            check_is_dag_raw limit (PList nodes) (PList edges) = Inr False)"
proof -
  have "(k, k) \<in> valid_edges nodes edges"
    using assms by (auto simp: valid_edges_def pairs_within_def)
  then have cyc: "\<not> acyclic (valid_edges nodes edges)"
    by (auto simp: acyclic_def)
  have "check_is_dag_raw limit (PList nodes) (PList edges) \<noteq> Inr True"
    using cyc check_Inr [of limit nodes edges True] by blast
  moreover have "check_is_dag_raw limit (PList nodes) (PList edges) = Inr False"
    if "well_shaped nodes edges \<and> card (vertex_set nodes) \<le> limit + 1"
    using cyc check_returns [of edges nodes limit] that by simp
  ultimately show ?thesis by blast
qed

theorem self_loop_not_dag_witness:
  "PDict [(''source'', PStr ''b''), (''target'', PStr ''b'')]
     \<in> set [PDict [(''source'', PStr ''a''), (''target'', PStr ''b'')],
            PDict [(''source'', PStr ''b''), (''target'', PStr ''b'')]] \<and>
   edge_pair (PDict [(''source'', PStr ''b''), (''target'', PStr ''b'')])
     = Some (KStr ''b'', KStr ''b'') \<and>
   KStr ''b'' \<in> vertex_set [PDict [(''id'', PStr ''a'')], PDict [(''id'', PStr ''b'')]] \<and>
   well_shaped [PDict [(''id'', PStr ''a'')], PDict [(''id'', PStr ''b'')]]
     [PDict [(''source'', PStr ''a''), (''target'', PStr ''b'')],
      PDict [(''source'', PStr ''b''), (''target'', PStr ''b'')]] \<and>
   card (vertex_set [PDict [(''id'', PStr ''a'')], PDict [(''id'', PStr ''b'')]]) \<le> 1000 + 1 \<and>
   check_is_dag_raw 1000 (PList [PDict [(''id'', PStr ''a'')], PDict [(''id'', PStr ''b'')]])
     (PList [PDict [(''source'', PStr ''a''), (''target'', PStr ''b'')],
             PDict [(''source'', PStr ''b''), (''target'', PStr ''b'')]]) = Inr False"
proof -
  let ?nodes = "[PDict [(''id'', PStr ''a'')], PDict [(''id'', PStr ''b'')]]"
  let ?loop = "PDict [(''source'', PStr ''b''), (''target'', PStr ''b'')]"
  let ?edges = "[PDict [(''source'', PStr ''a''), (''target'', PStr ''b'')], ?loop]"
  have h1: "?loop \<in> set ?edges" by simp
  have h2: "edge_pair ?loop = Some (KStr ''b'', KStr ''b'')" by (simp add: edge_pair_def)
  have h3: "KStr ''b'' \<in> vertex_set ?nodes" by (simp add: vertex_set_def node_key_def)
  have h4: "well_shaped ?nodes ?edges"
    by (simp add: well_shaped_def node_ok_def edge_ok_def vertex_set_def node_key_def
        hashable_def)
  have h5: "card (vertex_set ?nodes) \<le> 1000 + 1"
    using card_vertex_set_le [of ?nodes] by simp
  show ?thesis using h1 h2 h3 h4 h5 self_loop_not_dag [OF h1 h2 h3, of 1000] by blast
qed

text \<open>
  C5, a self-loop on a vertex does not always give a returned false: beside a node whose
  identifier is a non-empty list the analyzer raises.
\<close>

theorem self_loop_raises:
  "PDict [(''source'', PStr ''a''), (''target'', PStr ''a'')]
     \<in> set [PDict [(''source'', PStr ''a''), (''target'', PStr ''a'')]] \<and>
   edge_pair (PDict [(''source'', PStr ''a''), (''target'', PStr ''a'')])
     = Some (KStr ''a'', KStr ''a'') \<and>
   KStr ''a'' \<in> vertex_set [PDict [(''id'', PStr ''a'')], PDict [(''id'', PList [PStr ''x''])]] \<and>
   check_is_dag_raw 1000
     (PList [PDict [(''id'', PStr ''a'')], PDict [(''id'', PList [PStr ''x''])]])
     (PList [PDict [(''source'', PStr ''a''), (''target'', PStr ''a'')]]) = Inl TypeError"
  by (simp add: edge_pair_def vertex_set_def node_key_def check_is_dag_raw_def dfs_check_def)







text \<open>
  C8. Reversing the node list, the edge list or both never changes one returned value of
  \<open>is_dag\<close> into another; when the distinct valid identifiers number at most
  \<open>limit + 1\<close> the reversed inputs return the same value. For an acyclic graph the
  value \<open>b\<close> is true.
\<close>

theorem reversal_irrelevant:
  assumes "check_is_dag_raw limit (PList nodes) (PList edges) = Inr b"
  shows "(check_is_dag_raw limit (PList (rev nodes)) (PList edges) = Inr b' \<or>
          check_is_dag_raw limit (PList nodes) (PList (rev edges)) = Inr b' \<or>
          check_is_dag_raw limit (PList (rev nodes)) (PList (rev edges)) = Inr b' \<longrightarrow> b' = b) \<and>
         (card (vertex_set nodes) \<le> limit + 1 \<longrightarrow>
            check_is_dag_raw limit (PList (rev nodes)) (PList edges) = Inr b \<and>
            check_is_dag_raw limit (PList nodes) (PList (rev edges)) = Inr b \<and>
            check_is_dag_raw limit (PList (rev nodes)) (PList (rev edges)) = Inr b)"
proof -
  have gen: "(check_is_dag_raw limit (PList nodes') (PList edges') = Inr b' \<longrightarrow> b' = b) \<and>
      (card (vertex_set nodes) \<le> limit + 1 \<longrightarrow>
         check_is_dag_raw limit (PList nodes') (PList edges') = Inr b)"
    if n: "set nodes' = set nodes" and e: "set edges' = set edges" for nodes' edges'
  proof -
    have w: "well_shaped nodes' edges' = well_shaped nodes edges"
      by (rule well_shaped_set [OF n e])
    have v: "valid_edges nodes' edges' = valid_edges nodes edges"
      by (rule valid_edges_set [OF n e])
    have vs: "vertex_set nodes' = vertex_set nodes" by (rule vertex_set_set [OF n])
    have emp: "edges' = [] \<longleftrightarrow> edges = []"
    proof
      assume "edges' = []"
      then have "set edges = {}" using e by simp
      then show "edges = []" by simp
    next
      assume "edges = []"
      then have "set edges' = {}" using e by simp
      then show "edges' = []" by simp
    qed
    have b: "b = acyclic (valid_edges nodes edges)"
      and shape: "edges = [] \<or> well_shaped nodes edges"
      using check_Inr [OF assms] by simp_all
    have "b' = b" if "check_is_dag_raw limit (PList nodes') (PList edges') = Inr b'"
      using check_Inr [OF that] v b by simp
    moreover have "check_is_dag_raw limit (PList nodes') (PList edges') = Inr b"
      if c: "card (vertex_set nodes) \<le> limit + 1"
    proof -
      have "edges' = [] \<or> well_shaped nodes' edges' \<and>
          (card (vertex_set nodes') \<le> limit + 1 \<or> valid_edges nodes' edges' = {})"
        using shape emp w c by (simp add: vs)
      then have "check_is_dag_raw limit (PList nodes') (PList edges')
          = Inr (acyclic (valid_edges nodes' edges'))"
        by (rule check_returns)
      then show ?thesis using v b by simp
    qed
    ultimately show ?thesis by blast
  qed
  have r1: "set (rev nodes) = set nodes" and r2: "set (rev edges) = set edges" by simp_all
  show ?thesis
    using gen [OF r1 refl] gen [OF refl r2] gen [OF r1 r2] by blast
qed

theorem reversal_irrelevant_witness:
  "check_is_dag_raw 1000
     (PList [PDict [(''id'', PStr ''a'')], PDict [(''id'', PStr ''b'')], PDict [(''id'', PStr ''c'')]])
     (PList [PDict [(''source'', PStr ''a''), (''target'', PStr ''b'')],
             PDict [(''source'', PStr ''b''), (''target'', PStr ''c'')]]) = Inr True \<and>
   card (vertex_set
     [PDict [(''id'', PStr ''a'')], PDict [(''id'', PStr ''b'')], PDict [(''id'', PStr ''c'')]])
     \<le> 1000 + 1 \<and>
   check_is_dag_raw 1000
     (PList (rev [PDict [(''id'', PStr ''a'')], PDict [(''id'', PStr ''b'')], PDict [(''id'', PStr ''c'')]]))
     (PList (rev [PDict [(''source'', PStr ''a''), (''target'', PStr ''b'')],
             PDict [(''source'', PStr ''b''), (''target'', PStr ''c'')]])) = Inr True"
proof -
  let ?nodes = "[PDict [(''id'', PStr ''a'')], PDict [(''id'', PStr ''b'')], PDict [(''id'', PStr ''c'')]]"
  let ?edges = "[PDict [(''source'', PStr ''a''), (''target'', PStr ''b'')],
                 PDict [(''source'', PStr ''b''), (''target'', PStr ''c'')]]"
  have run: "check_is_dag_raw 1000 (PList ?nodes) (PList ?edges) = Inr True" by code_simp
  have c: "card (vertex_set ?nodes) \<le> 1000 + 1"
    using card_vertex_set_le [of ?nodes] by simp
  show ?thesis using run c reversal_irrelevant [OF run] by blast
qed

text \<open>
  C8, reversal can change the outcome on an acyclic graph. With the nodes 1 to 1002 and
  the fan edges the analyzer returns true; on the reversed edge list the successors of 1
  are 2, 3, \<dots> in this order, the search nests 1001 deep, and with room for 1000 nested
  calls the analyzer raises RecursionError.
\<close>

theorem reversal_counterexample:
  "check_is_dag_raw 1000 (PList (fan_nodes 1002)) (PList (fan_edges 1002)) = Inr True \<and>
   check_is_dag_raw 1000 (PList (fan_nodes 1002)) (PList (rev (fan_edges 1002)))
     = Inl RecursionError"
proof (intro conjI)
  show "check_is_dag_raw 1000 (PList (fan_nodes 1002)) (PList (fan_edges 1002)) = Inr True"
    by (rule fan_returns) simp_all
  show "check_is_dag_raw 1000 (PList (fan_nodes 1002)) (PList (rev (fan_edges 1002)))
     = Inl RecursionError"
    by (rule fan_reversed_overflows) simp
qed

text \<open>
  C9. When every record is a mapping whose truthy \<open>id\<close>, \<open>source\<close> and
  \<open>target\<close> are hashable, and the distinct valid identifiers number at most
  \<open>limit + 1\<close>, the analyzer returns and never raises; records with a missing or falsy
  field and edges to unknown identifiers are left out of the graph.
\<close>

theorem hashable_records_never_raise:
  assumes "list_all node_ok nodes" and "list_all edge_plain edges"
    and "card (vertex_set nodes) \<le> limit + 1"
  shows "check_is_dag_raw limit (PList nodes) (PList edges)
           = Inr (acyclic (valid_edges nodes edges))"
  using plain_well_shaped [OF assms(1,2)] assms(3) check_returns [of edges nodes limit]
  by simp

theorem hashable_records_never_raise_witness:
  "list_all node_ok
     [PDict [(''id'', PStr ''a'')], PDict [], PDict [(''id'', PNone)], PDict [(''id'', PStr ''b'')]] \<and>
   list_all edge_plain
     [PDict [(''source'', PStr ''a''), (''target'', PStr ''b'')],
      PDict [(''source'', PStr ''a'')],
      PDict [(''source'', PStr ''''), (''target'', PStr ''b'')],
      PDict [(''source'', PStr ''b''), (''target'', PStr ''unknown'')]] \<and>
   card (vertex_set
     [PDict [(''id'', PStr ''a'')], PDict [], PDict [(''id'', PNone)], PDict [(''id'', PStr ''b'')]])
     \<le> 1000 + 1 \<and>
   check_is_dag_raw 1000
     (PList [PDict [(''id'', PStr ''a'')], PDict [], PDict [(''id'', PNone)], PDict [(''id'', PStr ''b'')]])
     (PList [PDict [(''source'', PStr ''a''), (''target'', PStr ''b'')],
      PDict [(''source'', PStr ''a'')],
      PDict [(''source'', PStr ''''), (''target'', PStr ''b'')],
      PDict [(''source'', PStr ''b''), (''target'', PStr ''unknown'')]]) = Inr True \<and>
   acyclic (valid_edges
     [PDict [(''id'', PStr ''a'')], PDict [], PDict [(''id'', PNone)], PDict [(''id'', PStr ''b'')]]
     [PDict [(''source'', PStr ''a''), (''target'', PStr ''b'')],
      PDict [(''source'', PStr ''a'')],
      PDict [(''source'', PStr ''''), (''target'', PStr ''b'')],
      PDict [(''source'', PStr ''b''), (''target'', PStr ''unknown'')]])"
proof -
  let ?nodes = "[PDict [(''id'', PStr ''a'')], PDict [], PDict [(''id'', PNone)], PDict [(''id'', PStr ''b'')]]"
  let ?edges = "[PDict [(''source'', PStr ''a''), (''target'', PStr ''b'')],
      PDict [(''source'', PStr ''a'')],
      PDict [(''source'', PStr ''''), (''target'', PStr ''b'')],
      PDict [(''source'', PStr ''b''), (''target'', PStr ''unknown'')]]"
  have n: "list_all node_ok ?nodes" by (simp add: node_ok_def hashable_def)
  have e: "list_all edge_plain ?edges" by (simp add: edge_plain_def hashable_def)
  have c: "card (vertex_set ?nodes) \<le> 1000 + 1"
    using card_vertex_set_le [of ?nodes] by simp
  have run: "check_is_dag_raw 1000 (PList ?nodes) (PList ?edges) = Inr True" by code_simp
  show ?thesis using n e c run hashable_records_never_raise [OF n e c] by simp
qed

text \<open>
  C9, outside these conditions the analyzer can raise: TypeError on an identifier that is
  a non-empty list, TypeError on a source that is a non-empty object, RecursionError on
  the chain of 1002 nodes with room for 1000 nested calls.
\<close>

theorem analyzer_raises:
  "check_is_dag_raw 1000 (PList [PDict [(''id'', PList [PStr ''x''])]])
     (PList [PDict [(''source'', PStr ''a''), (''target'', PStr ''b'')]]) = Inl TypeError \<and>
   check_is_dag_raw 1000 (PList [PDict [(''id'', PStr ''a'')]])
     (PList [PDict [(''source'', PDict [(''k'', PNum 1)]), (''target'', PStr ''a'')]])
     = Inl TypeError \<and>
   check_is_dag_raw 1000 (PList (fan_nodes 1002)) (PList (chain_edges 1002))
     = Inl RecursionError"
proof (intro conjI)
  show "check_is_dag_raw 1000 (PList [PDict [(''id'', PList [PStr ''x''])]])
     (PList [PDict [(''source'', PStr ''a''), (''target'', PStr ''b'')]]) = Inl TypeError"
    by (simp add: check_is_dag_raw_def dfs_check_def)
  show "check_is_dag_raw 1000 (PList [PDict [(''id'', PStr ''a'')]])
     (PList [PDict [(''source'', PDict [(''k'', PNum 1)]), (''target'', PStr ''a'')]])
     = Inl TypeError"
    by (simp add: check_is_dag_raw_def dfs_check_def traverse_def)
  show "check_is_dag_raw 1000 (PList (fan_nodes 1002)) (PList (chain_edges 1002))
     = Inl RecursionError"
    by (rule chain_overflows) simp
qed

text \<open>
  C10. In the adjacency built by the code every successor is one of the node
  identifiers, which are exactly the keys of the adjacency and of the colour dict; the
  traversal therefore never raises KeyError at a subscript \<open>graph[node]\<close> or
  \<open>color[neighbor]\<close>, and it returns a value when the node identifiers number at most
  \<open>limit + 1\<close>.
\<close>

theorem adjacency_keys_exist:
  assumes "collect_node_ids nodes [] = Inr node_ids"
    and "add_edges edges (init_graph node_ids []) = Inr graph"
  shows "(\<forall>(u, succs) \<in> set graph. set succs \<subseteq> set node_ids) \<and>
         distinct (map fst graph) \<and>
         fst ` set graph = set node_ids \<and>
         fst ` set (init_color node_ids []) = set node_ids \<and>
         visit_all limit graph node_ids (init_color node_ids []) \<noteq> Inl KeyError \<and>
         (length node_ids \<le> limit + 1 \<longrightarrow>
            (\<exists>b. visit_all limit graph node_ids (init_color node_ids []) = Inr b))"
proof -
  let ?g0 = "init_graph node_ids []"
  have keys0: "fst ` set ?g0 = set node_ids" by (simp add: init_graph_keys)
  have ok: "\<forall>e \<in> set edges. edge_ok (set node_ids) e"
    using add_edges_Inr [OF assms(2)] keys0 by simp
  have "graph_edges ?g0 = {}" by (rule init_graph_edges) (simp add: graph_edges_def)
  then have keys: "fst ` set graph = set node_ids"
    and edges: "graph_edges graph = pairs_within (set node_ids) edges"
    using add_edges_ok [of edges ?g0] ok keys0 assms(2) by auto
  have dist: "distinct (map fst graph)"
    by (rule add_edges_distinct [OF assms(2)]) (simp add: init_graph_distinct)
  have closed: "set succs \<subseteq> set node_ids" if "(u, succs) \<in> set graph" for u succs
  proof
    fix v assume "v \<in> set succs"
    moreover have "map_of graph u = Some succs" using that dist by simp
    ultimately have "(u, v) \<in> graph_edges graph" by (auto simp: graph_edges_def)
    then show "v \<in> set node_ids" using edges pairs_within_subset by blast
  qed
  have run: "visit_all limit graph node_ids (init_color node_ids [])
        = Inr (acyclic (pairs_within (set node_ids) edges)) \<or>
      (visit_all limit graph node_ids (init_color node_ids []) = Inl RecursionError \<and>
        limit + 1 < card (set node_ids))"
    using traverse_ok [OF ok, of limit] assms(2) by (auto simp: traverse_def)
  have nokey: "visit_all limit graph node_ids (init_color node_ids []) \<noteq> Inl KeyError"
    using run by auto
  have ret: "\<exists>b. visit_all limit graph node_ids (init_color node_ids []) = Inr b"
    if "length node_ids \<le> limit + 1"
    using run that card_length [of node_ids] by auto
  show ?thesis using closed dist keys nokey ret by (auto simp: init_color_keys)
qed

theorem adjacency_keys_exist_witness:
  "collect_node_ids [PDict [(''id'', PStr ''a'')], PDict [(''id'', PStr ''b'')]] []
     = Inr [KStr ''a'', KStr ''b''] \<and>
   add_edges [PDict [(''source'', PStr ''a''), (''target'', PStr ''b'')],
              PDict [(''source'', PStr ''b''), (''target'', PStr ''zz'')]]
     (init_graph [KStr ''a'', KStr ''b''] [])
     = Inr [(KStr ''a'', [KStr ''b'']), (KStr ''b'', [])] \<and>
   length [KStr ''a'', KStr ''b''] \<le> 1000 + 1 \<and>
   (\<exists>b. visit_all 1000 [(KStr ''a'', [KStr ''b'']), (KStr ''b'', [])] [KStr ''a'', KStr ''b'']
          (init_color [KStr ''a'', KStr ''b''] []) = Inr b)"
proof -
  have h1: "collect_node_ids [PDict [(''id'', PStr ''a'')], PDict [(''id'', PStr ''b'')]] []
     = Inr [KStr ''a'', KStr ''b'']" by simp
  have h2: "add_edges [PDict [(''source'', PStr ''a''), (''target'', PStr ''b'')],
              PDict [(''source'', PStr ''b''), (''target'', PStr ''zz'')]]
     (init_graph [KStr ''a'', KStr ''b''] [])
     = Inr [(KStr ''a'', [KStr ''b'']), (KStr ''b'', [])]" by simp
  have h3: "length [KStr ''a'', KStr ''b''] \<le> 1000 + 1" by simp
  show ?thesis using h1 h2 h3 adjacency_keys_exist [OF h1 h2, of 1000] by blast
qed

end
